theory Spec2Isabelle
  imports Main "HOL-Library.Sublist" "HOL-Library.AList"
begin

section \<open>Strings and characters\<close>

text \<open>
  A JavaScript string is a sequence of UTF-16 code units. It is modelled as a \<^typ>\<open>string\<close>,
  one \<^typ>\<open>char\<close> per code unit, which covers the code units up to U+00FF. Every regular
  expression and string test of the program looks for ASCII characters, white space or line
  terminators only; within this range the line terminators are LF and CR, and the white space
  of \<^verbatim>\<open>\s\<close> and \<^verbatim>\<open>trim()\<close> is TAB, LF, VT, FF, CR, SPACE and NBSP.
\<close>

definition dq :: char where
  "dq = CHR 0x22"

definition backslash :: char where
  "backslash = CHR 0x5C"

definition is_line_terminator :: "char \<Rightarrow> bool" where
  "is_line_terminator c = (c = CHR 0x0A \<or> c = CHR 0x0D)"

definition dot :: "char \<Rightarrow> bool" where
  "dot c = (\<not> is_line_terminator c)"

definition is_space :: "char \<Rightarrow> bool" where
  "is_space c = (c = CHR 0x09 \<or> c = CHR 0x0A \<or> c = CHR 0x0B \<or> c = CHR 0x0C \<or> c = CHR 0x0D
     \<or> c = CHR 0x20 \<or> c = CHR 0xA0)"

definition trim :: "string \<Rightarrow> string" where
  "trim s = rev (dropWhile is_space (rev (dropWhile is_space s)))"

text \<open>
  Case-insensitive matching (flag \<^verbatim>\<open>i\<close>) compares canonicalised code units: a code unit
  is replaced by its upper-case form. An ASCII letter has an ASCII upper-case form; no other
  code unit is canonicalised to an ASCII character.
\<close>

definition canonicalize :: "char \<Rightarrow> char" where
  "canonicalize c =
     (case map_of (zip ''abcdefghijklmnopqrstuvwxyz'' ''ABCDEFGHIJKLMNOPQRSTUVWXYZ'') c of
        Some u \<Rightarrow> u
      | None \<Rightarrow> c)"

section \<open>Regular expressions\<close>

text \<open>
  The regular expressions of the program are sequences of literals and of quantified
  character classes, some with a top-level alternation. They are matched the way the
  JavaScript engine does it, by backtracking: a lazy quantifier tries the shortest repetition
  first, a greedy one the longest, and the first path that reaches the end of the pattern
  wins. A match is returned as the list of the substrings consumed by each atom, so that the
  whole match is their concatenation and a capture group is the piece of its atom.
\<close>

datatype atom =
    Lit string
  | Opt string
  | StarL "char \<Rightarrow> bool"
  | StarG "char \<Rightarrow> bool"
  | PlusG "char \<Rightarrow> bool"

type_synonym cont = "string \<Rightarrow> string list option"

fun star_lazy :: "(char \<Rightarrow> bool) \<Rightarrow> cont \<Rightarrow> string \<Rightarrow> (string \<times> string list) option" where
  "star_lazy P k [] = map_option (Pair []) (k [])"
| "star_lazy P k (c # cs) =
     (case k (c # cs) of
        Some r \<Rightarrow> Some ([], r)
      | None \<Rightarrow> if P c then map_option (\<lambda>(x, r). (c # x, r)) (star_lazy P k cs) else None)"

fun star_greedy :: "(char \<Rightarrow> bool) \<Rightarrow> cont \<Rightarrow> string \<Rightarrow> (string \<times> string list) option" where
  "star_greedy P k [] = map_option (Pair []) (k [])"
| "star_greedy P k (c # cs) =
     (case (if P c then star_greedy P k cs else None) of
        Some (x, r) \<Rightarrow> Some (c # x, r)
      | None \<Rightarrow> map_option (Pair []) (k (c # cs)))"

definition plus_greedy :: "(char \<Rightarrow> bool) \<Rightarrow> cont \<Rightarrow> string \<Rightarrow> (string \<times> string list) option" where
  "plus_greedy P k s =
     (case s of
        [] \<Rightarrow> None
      | c # cs \<Rightarrow> if P c then map_option (\<lambda>(x, r). (c # x, r)) (star_greedy P k cs) else None)"

primrec rx_match :: "atom list \<Rightarrow> string \<Rightarrow> string list option" where
  "rx_match [] s = Some []"
| "rx_match (a # as) s =
     (case a of
        Lit l \<Rightarrow> if prefix l s then map_option (Cons l) (rx_match as (drop (length l) s)) else None
      | Opt l \<Rightarrow>
          (case (if prefix l s then rx_match as (drop (length l) s) else None) of
             Some r \<Rightarrow> Some (l # r)
           | None \<Rightarrow> map_option (Cons []) (rx_match as s))
      | StarL P \<Rightarrow> map_option (\<lambda>(x, r). x # r) (star_lazy P (rx_match as) s)
      | StarG P \<Rightarrow> map_option (\<lambda>(x, r). x # r) (star_greedy P (rx_match as) s)
      | PlusG P \<Rightarrow> map_option (\<lambda>(x, r). x # r) (plus_greedy P (rx_match as) s))"

text \<open>A top-level alternation tries its alternatives in order at the current position.\<close>

fun rx_first :: "atom list list \<Rightarrow> string \<Rightarrow> string list option" where
  "rx_first [] s = None"
| "rx_first (r # rs) s = (case rx_match r s of Some ps \<Rightarrow> Some ps | None \<Rightarrow> rx_first rs s)"

text \<open>
  The global flag: all matches from left to right, each search starting where the previous
  match ended (one code unit further after an empty match). This is what
  \<^verbatim>\<open>content.match(re)\<close> collects and what the loops
  \<^verbatim>\<open>while ((m = re.exec(content)) !== null)\<close> visit.
\<close>

function rx_scan :: "atom list list \<Rightarrow> string \<Rightarrow> string list list" where
  "rx_scan r [] = (case rx_first r [] of None \<Rightarrow> [] | Some ps \<Rightarrow> [ps])"
| "rx_scan r (c # cs) =
     (case rx_first r (c # cs) of
        None \<Rightarrow> rx_scan r cs
      | Some ps \<Rightarrow> ps # rx_scan r (drop (length (concat ps) - 1) cs))"
  by pat_completeness auto
termination
  by (relation "measure (\<lambda>(r, s). length s)") auto

text \<open>
  The replacement string of \<^verbatim>\<open>String.prototype.replace\<close> is a template:
  \<^verbatim>\<open>$$\<close> stands for a dollar sign, \<^verbatim>\<open>$&\<close> for the matched text, \<^verbatim>\<open>$`\<close> for the text
  before the match and \<^verbatim>\<open>$'\<close> for the text after it. The patterns that are replaced
  have no capture group, so \<^verbatim>\<open>$1\<close> and the like stay as they are.
\<close>

fun substitute :: "string \<Rightarrow> string \<Rightarrow> string \<Rightarrow> string \<Rightarrow> string" where
  "substitute [] m b a = []"
| "substitute [c] m b a = [c]"
| "substitute (c # d # t) m b a =
     (if c = CHR ''$'' \<and> d = CHR ''$'' then CHR ''$'' # substitute t m b a
      else if c = CHR ''$'' \<and> d = CHR ''&'' then m @ substitute t m b a
      else if c = CHR ''$'' \<and> d = CHR 0x60 then b @ substitute t m b a
      else if c = CHR ''$'' \<and> d = CHR 0x27 then a @ substitute t m b a
      else c # substitute (d # t) m b a)"

text \<open>
  \<^verbatim>\<open>s.replace(re, repl)\<close> with a global \<^verbatim>\<open>re\<close>; \<open>bef\<close> is the part of the subject
  that lies before the current position.
\<close>

function rx_replace :: "atom list list \<Rightarrow> string \<Rightarrow> string \<Rightarrow> string \<Rightarrow> string" where
  "rx_replace r repl bef [] =
     (case rx_first r [] of None \<Rightarrow> [] | Some ps \<Rightarrow> substitute repl (concat ps) bef [])"
| "rx_replace r repl bef (c # cs) =
     (case rx_first r (c # cs) of
        None \<Rightarrow> c # rx_replace r repl (bef @ [c]) cs
      | Some ps \<Rightarrow>
          (let m = concat ps; n = length m in
           if n = 0 then substitute repl m bef (c # cs) @ c # rx_replace r repl (bef @ [c]) cs
           else substitute repl m bef (drop n (c # cs)) @ rx_replace r repl (bef @ m) (drop (n - 1) cs)))"
  by pat_completeness auto
termination
  by (relation "measure (\<lambda>(r, repl, bef, s). length s)") auto

definition replace_all :: "atom list list \<Rightarrow> string \<Rightarrow> string \<Rightarrow> string" where
  "replace_all r repl s = rx_replace r repl [] s"


text \<open>
  A \<^verbatim>\<open>Set\<close> of strings keeps its elements in the order of their first insertion;
  \<^verbatim>\<open>Array.from\<close> lists them in that order.
\<close>

definition set_add :: "string list \<Rightarrow> string \<Rightarrow> string list" where
  "set_add xs x = (if x \<in> set xs then xs else xs @ [x])"

definition dedup :: "string list \<Rightarrow> string list" where
  "dedup xs = foldl set_add [] xs"

text \<open>\<^verbatim>\<open>s.split('/').pop()\<close>: the part of \<open>s\<close> after its last slash.\<close>

definition last_segment :: "char \<Rightarrow> string \<Rightarrow> string" where
  "last_segment sep s = rev (takeWhile (\<lambda>c. c \<noteq> sep) (rev s))"

text \<open>\<^verbatim>\<open>s.replace(pat, '')\<close> with a string \<open>pat\<close>: the first occurrence is removed.\<close>

fun remove_first :: "string \<Rightarrow> string \<Rightarrow> string" where
  "remove_first pat [] = []"
| "remove_first pat (c # cs) =
     (if prefix pat (c # cs) then drop (length pat) (c # cs) else c # remove_first pat cs)"

text \<open>
  \<^verbatim>\<open>s.replace(/^\[\[|\]\]$/g, '')\<close>. The first alternative matches at index 0 only, the
  second one only where two closing brackets end the string; matches do not overlap, so the
  closing brackets are looked for in what follows the opening ones.
\<close>

definition strip_brackets :: "string \<Rightarrow> string" where
  "strip_brackets s =
     (let s1 = (if prefix ''[['' s then drop 2 s else s)
      in if suffix '']]'' s1 then take (length s1 - 2) s1 else s1)"

text \<open>\<^verbatim>\<open>s.replace(/^\.\//, '')\<close>\<close>

definition strip_dot_slash :: "string \<Rightarrow> string" where
  "strip_dot_slash s = (if prefix ''./'' s then drop 2 s else s)"

section \<open>The document store\<close>

text \<open>
  A \<^verbatim>\<open>TFile\<close> of the host application, with the fields the program reads; \<open>f_parent\<close>
  is the path of the containing folder (\<^verbatim>\<open>file.parent.path\<close>), \<open>None\<close> when the file
  has no parent. An abstract file is a file or a folder.
\<close>

record tfile =
  f_path :: string
  f_name :: string
  f_basename :: string
  f_extension :: string
  f_parent :: "string option"

datatype node = FileNode tfile | FolderNode

section \<open>Local references (upload.ts)\<close>

text \<open>
  \<^verbatim>\<open>isLocalPath\<close>. The three tests are anchored at the start of the path. The first has the
  flag \<^verbatim>\<open>i\<close>: the upper-case pattern is matched against the canonicalised path.
\<close>

definition isLocalPath :: "string \<Rightarrow> bool" where
  "isLocalPath path =
     (if path = [] then False
      else
        (let isHttp = (rx_match [Lit ''HTTP'', Opt ''S'', Lit ''://''] (map canonicalize path) \<noteq> None);
             isProtocolRelative = (rx_match [Lit ''//''] path \<noteq> None);
             isData = (rx_match [Lit ''data:''] path \<noteq> None)
         in \<not> isHttp \<and> \<not> isProtocolRelative \<and> \<not> isData))"

text \<open>The classification in the words of the specification.\<close>

definition starts_with_ci :: "string \<Rightarrow> string \<Rightarrow> bool" where
  "starts_with_ci pre s =
     (length pre \<le> length s \<and> map canonicalize (take (length pre) s) = map canonicalize pre)"

definition spec_local :: "string \<Rightarrow> bool" where
  "spec_local p =
     (\<not> starts_with_ci ''http://'' p \<and> \<not> starts_with_ci ''https://'' p
      \<and> \<not> prefix ''//'' p \<and> \<not> prefix ''data:'' p)"


text \<open>
  \<^verbatim>\<open>extractLocalImagePaths\<close>: three scans of the whole text, one per form; the capture
  group of each pattern is the piece of its second quantifier (of its only one for the wiki
  form).
\<close>

definition markdownRegex :: "atom list" where
  "markdownRegex = [Lit ''!['', StarL dot, Lit '']('', PlusG (\<lambda>c. c \<noteq> CHR '')''), Lit '')'']"

definition htmlRegex :: "atom list" where
  "htmlRegex = [Lit ''<img'', PlusG (\<lambda>c. c \<noteq> CHR ''>''), Lit (''src='' @ [dq]),
     PlusG (\<lambda>c. c \<noteq> dq \<and> c \<noteq> CHR ''>''), Lit [dq]]"

definition wikiRegex :: "atom list" where
  "wikiRegex = [Lit ''![['', PlusG (\<lambda>c. c \<noteq> CHR '']''), Lit '']]'']"

definition add_local :: "nat \<Rightarrow> string list \<Rightarrow> string list \<Rightarrow> string list" where
  "add_local i paths m = (let p = trim (m ! i) in if isLocalPath p then set_add paths p else paths)"

definition extractLocalImagePaths :: "string \<Rightarrow> string list" where
  "extractLocalImagePaths content =
     (let paths = [];
          paths = foldl (add_local 3) paths (rx_scan [markdownRegex] content);
          paths = foldl (add_local 3) paths (rx_scan [htmlRegex] content);
          paths = foldl (add_local 1) paths (rx_scan [wikiRegex] content)
      in paths)"

text \<open>
  \<^verbatim>\<open>replaceImageLink\<close>. \<^verbatim>\<open>escapedPath\<close> has a backslash before every syntax character of
  \<^verbatim>\<open>oldPath\<close>, so each pattern contains \<^verbatim>\<open>oldPath\<close> as a literal.
\<close>

definition replaceImageLink :: "string \<Rightarrow> string \<Rightarrow> string \<Rightarrow> string" where
  "replaceImageLink content oldPath newUrl =
     (let content = replace_all [[Lit ''!['', StarL dot, Lit ('']('' @ oldPath @ '')'')]]
                      (''![]('' @ newUrl @ '')'') content;
          content = replace_all [[Lit ''<img'', PlusG (\<lambda>c. c \<noteq> CHR ''>''),
                        Lit (''src='' @ [dq] @ oldPath @ [dq])]]
                      (''<img src='' @ [dq] @ newUrl @ [dq]) content;
          content = replace_all [[Lit (''![['' @ oldPath @ '']]'')]]
                      (''![]('' @ newUrl @ '')'') content
      in content)"

text \<open>
  The normalisation that \<^verbatim>\<open>resolveImagePath\<close> and \<^verbatim>\<open>getAlternativePaths\<close> both apply:
  backslashes to slashes, \<^verbatim>\<open>%20\<close> to a space, wiki brackets and a leading \<^verbatim>\<open>./\<close>
  removed, white space trimmed.
\<close>

definition clean_path :: "string \<Rightarrow> string" where
  "clean_path imagePath =
     trim (strip_dot_slash (strip_brackets (replace_all [[Lit ''%20'']] '' ''
       (replace_all [[Lit [backslash]]] ''/'' imagePath))))"

definition resolveImagePath :: "string \<Rightarrow> tfile \<Rightarrow> string" where
  "resolveImagePath imagePath noteFile =
     (let cleanPath = clean_path imagePath in
      if prefix ''/'' cleanPath then drop 1 cleanPath
      else
        (let noteDir = (case f_parent noteFile of Some d \<Rightarrow> d | None \<Rightarrow> [])
         in if noteDir \<noteq> [] then noteDir @ ''/'' @ cleanPath else cleanPath))"

text \<open>
  \<^verbatim>\<open>getAlternativePaths\<close>. \<^verbatim>\<open>decodeURIComponent\<close> is a function of the language, taken
  as a parameter: \<open>None\<close> when it throws. \<open>push_alternatives\<close> is the body of the loop over
  the variants.
\<close>

definition variants_of :: "(string \<Rightarrow> string option) \<Rightarrow> string \<Rightarrow> string list" where
  "variants_of decodeURIComponent raw =
     (let variants = set_add [] raw
      in case decodeURIComponent raw of Some d \<Rightarrow> set_add variants d | None \<Rightarrow> variants)"

definition push_alternatives :: "tfile \<Rightarrow> string list \<Rightarrow> string \<Rightarrow> string list" where
  "push_alternatives noteFile alternatives v =
     (let alternatives = alternatives @ [resolveImagePath v noteFile];
          alternatives = (if sublist ''attachments/'' v
                          then alternatives @ [remove_first ''attachments/'' v] else alternatives);
          alternatives = alternatives @ [v];
          alternatives = (if \<not> prefix ''attachments/'' v
                          then alternatives @ [''attachments/'' @ v] else alternatives);
          alternatives = (case f_parent noteFile of
                            Some d \<Rightarrow> if d \<noteq> [] then alternatives @ [d @ ''/'' @ v] else alternatives
                          | None \<Rightarrow> alternatives);
          alternatives = alternatives @ [''Attachments/'' @ v];
          baseNameOnly = last_segment CHR ''/'' v
      in if baseNameOnly \<noteq> []
         then alternatives @ [(case f_parent noteFile of Some d \<Rightarrow> d @ ''/'' | None \<Rightarrow> [])
                               @ f_basename noteFile @ ''/'' @ baseNameOnly]
         else alternatives)"

definition getAlternativePaths :: "(string \<Rightarrow> string option) \<Rightarrow> string \<Rightarrow> tfile \<Rightarrow> string list" where
  "getAlternativePaths decodeURIComponent imagePath noteFile =
     (let raw = clean_path imagePath;
          alternatives = foldl (push_alternatives noteFile) [] (variants_of decodeURIComponent raw)
      in dedup (filter (\<lambda>s. s \<noteq> []) alternatives))"

definition findFileByBasename ::
  "(string \<Rightarrow> string option) \<Rightarrow> tfile list \<Rightarrow> string \<Rightarrow> tfile option" where
  "findFileByBasename decodeURIComponent files basename =
     (case find (\<lambda>f. f_name f = basename) files of
        Some f \<Rightarrow> Some f
      | None \<Rightarrow>
          (case decodeURIComponent basename of
             Some decoded \<Rightarrow> find (\<lambda>f. f_name f = decoded) files
           | None \<Rightarrow> None))"

text \<open>
  The first part of \<^verbatim>\<open>uploadLocalImage\<close>: the search for the stored file. \<open>lookup\<close> is
  \<^verbatim>\<open>getAbstractFileByPath\<close> and \<open>files\<close> is \<^verbatim>\<open>getFiles()\<close>. The result is the file, or
  the path named by the error that is thrown.
\<close>

datatype error =
    NotFound string
  | HttpStatus nat string
  | NetworkFailure
  | InvalidJson
  | ServerMessage string
  | NoToken
  | UploadFailed

definition first_existing :: "(string \<Rightarrow> node option) \<Rightarrow> string list \<Rightarrow> node option" where
  "first_existing lookup alts =
     (case find (\<lambda>alt. lookup alt \<noteq> None) alts of Some alt \<Rightarrow> lookup alt | None \<Rightarrow> None)"

definition locateImage ::
  "(string \<Rightarrow> string option) \<Rightarrow> (string \<Rightarrow> node option) \<Rightarrow> tfile list \<Rightarrow> string \<Rightarrow> tfile
     \<Rightarrow> error + tfile" where
  "locateImage decodeURIComponent lookup files imagePath noteFile =
     (let decoded = (case decodeURIComponent imagePath of Some d \<Rightarrow> d | None \<Rightarrow> imagePath);
          absolutePath = resolveImagePath decoded noteFile;
          file = lookup absolutePath;
          file = (if file = None
                  then first_existing lookup (getAlternativePaths decodeURIComponent decoded noteFile)
                  else file);
          file = (if file = None
                  then
                    (let base = strip_brackets (last_segment CHR ''/''
                                  (replace_all [[Lit [backslash]]] ''/'' decoded))
                     in map_option FileNode (findFileByBasename decodeURIComponent files base))
                  else file)
      in case file of
           Some (FileNode f) \<Rightarrow> Inr f
         | _ \<Rightarrow> Inl (NotFound absolutePath))"

section \<open>The remote client (api/lsky.ts)\<close>

text \<open>
  An image of the remote inventory: \<^verbatim>\<open>key\<close>, \<^verbatim>\<open>name\<close> and \<^verbatim>\<open>links.url\<close>, the fields
  that the program reads.
\<close>

record LskyImageItem =
  img_key :: string
  img_name :: string
  img_url :: string

text \<open>
  What \<^verbatim>\<open>getImageMimeType\<close> can return. Its table is an object literal, so a key that
  names a property inherited from \<^verbatim>\<open>Object.prototype\<close> finds that property: the function
  \<^verbatim>\<open>Object\<close> for \<^verbatim>\<open>constructor\<close>, the prototype object for \<^verbatim>\<open>__proto__\<close>.
\<close>

datatype mime_value = MimeString string | ObjectConstructor | ObjectPrototype

text \<open>
  A request as it reaches the network layer. The body is the JSON of the credentials, or the
  form of an upload (file content, file name, the value given to \<^verbatim>\<open>Blob\<close> as the type,
  \<^verbatim>\<open>strategy_id\<close>).
\<close>

datatype req_body =
    NoBody
  | Credentials string string
  | FormData string string mime_value string

record request =
  r_url :: string
  r_method :: string
  r_headers :: "(string \<times> string) list"
  r_body :: req_body

text \<open>
  A response: its status, and what \<^verbatim>\<open>res.json()\<close> and \<^verbatim>\<open>res.text()\<close> give (\<open>None\<close> when
  the promise is rejected). The parsed body is reduced to what the client reads from it, a
  field that is absent or falsy being the empty string, zero or the empty list:
  \<^verbatim>\<open>json.status\<close> (its truthiness), \<^verbatim>\<open>json.message\<close>, \<^verbatim>\<open>json.data.token\<close>,
  \<^verbatim>\<open>json.data.links.url\<close>, \<^verbatim>\<open>json.data.last_page\<close> and \<^verbatim>\<open>json.data.data\<close>.
\<close>

record payload =
  j_status :: bool
  j_message :: string
  j_token :: string
  j_url :: string
  j_last_page :: int
  j_items :: "LskyImageItem list"

record response =
  status :: nat
  json :: "payload option"
  body_text :: "string option"

definition ok :: "response \<Rightarrow> bool" where
  "ok res = (200 \<le> status res \<and> status res \<le> 299)"

datatype net_result = NetError | Response response

text \<open>What the program shows to the user.\<close>

datatype label = Label string | FailedLabel

datatype title = UploadTitle | DownloadCurrentTitle | DownloadAllTitle | CleanupTitle

datatype notice =
    NoActiveNote
  | NoLocalImages
  | FoundLocalImages nat
  | UploadSucceeded nat nat string
  | UploadFailedFor string error
  | UploadFinished nat nat
  | InvalidServerUrl
  | ScanStarted
  | NothingToClean
  | Cancelled
  | NoRemoteImages
  | DownloadFailedFor string
  | DownloadFinished nat
  | AllDownloadsFinished nat

text \<open>
  Everything the program does to the outside is recorded, in order: requests to the network
  layer (\<^verbatim>\<open>fetch\<close>, and \<^verbatim>\<open>requestUrl\<close> for downloads), timers, writes to the document
  store, notices, dialogs and progress reports.
\<close>

datatype event =
    Fetch request
  | Download string
  | Sleep nat
  | Modify string string
  | CreateFolder string
  | CreateBinary string string
  | ModifyBinary string string
  | Notice notice
  | Confirm "LskyImageItem list" nat
  | ShowResult "string list" "string list"
  | ProgressOpen title
  | ProgressTotal nat
  | ProgressIncrement label
  | ProgressClose

text \<open>
  The state: the configuration of the client with its token, the flag of the client, the
  document store (files, folders, contents by path), the number of requests sent and the
  record of events.
\<close>

record world =
  serverUrl :: string
  email :: string
  password :: string
  token :: string
  isFetchingToken :: bool
  files :: "tfile list"
  folders :: "string list"
  contents :: "string \<Rightarrow> string"
  tick :: nat
  trace :: "event list"

text \<open>
  The environment: the answer of the network to the \<open>n\<close>-th request, the answer of the
  user to the confirmation dialog, the clock, the active file of the workspace, and the
  functions of the language that are taken as given (\<open>None\<close> when they throw):
  \<^verbatim>\<open>decodeURIComponent\<close>, \<^verbatim>\<open>encodeURIComponent\<close> and the parser of \<^verbatim>\<open>new URL\<close>.
\<close>

record url =
  protocol :: string
  host :: string
  pathname :: string

record env =
  net :: "nat \<Rightarrow> net_result"
  requestUrl :: "nat \<Rightarrow> string \<Rightarrow> string option"
  confirm :: "LskyImageItem list \<Rightarrow> nat \<Rightarrow> bool"
  clock :: "nat \<Rightarrow> nat"
  activeFile :: "tfile option"
  decodeURIComponent :: "string \<Rightarrow> string option"
  encodeURIComponent :: "string \<Rightarrow> string"
  parseUrl :: "string \<Rightarrow> url option"

definition emit :: "event \<Rightarrow> world \<Rightarrow> world" where
  "emit e w = w\<lparr>trace := trace w @ [e]\<rparr>"

definition fetch :: "env \<Rightarrow> request \<Rightarrow> world \<Rightarrow> net_result \<times> world" where
  "fetch env rq w = (net env (tick w), emit (Fetch rq) (w\<lparr>tick := tick w + 1\<rparr>))"

text \<open>\<^verbatim>\<open>this.config.serverUrl.replace(/\/$/, '')\<close>\<close>

definition baseUrl :: "world \<Rightarrow> string" where
  "baseUrl w = (if suffix ''/'' (serverUrl w) then butlast (serverUrl w) else serverUrl w)"

definition token_request :: "world \<Rightarrow> request" where
  "token_request w =
     \<lparr>r_url = baseUrl w @ ''/tokens'', r_method = ''POST'',
      r_headers = [(''Content-Type'', ''application/json''), (''Accept'', ''application/json'')],
      r_body = Credentials (email w) (password w)\<rparr>"

definition finally_reset :: "world \<Rightarrow> world" where
  "finally_reset w = w\<lparr>isFetchingToken := False\<rparr>"

text \<open>
  \<^verbatim>\<open>getToken\<close>, run on its own: while the flag is set it waits 200 ms and calls itself
  again, which never ends when no other call is there to clear the flag.
\<close>

partial_function (option) getToken :: "env \<Rightarrow> world \<Rightarrow> ((error + string) \<times> world) option" where
  "getToken env w =
     (if isFetchingToken w then getToken env (emit (Sleep 200) w)
      else
        (let w = w\<lparr>isFetchingToken := True\<rparr>;
             (res, w) = fetch env (token_request w) w
         in case res of
              NetError \<Rightarrow> Some (Inl NetworkFailure, finally_reset w)
            | Response res \<Rightarrow>
                if \<not> ok res then Some (Inl (HttpStatus (status res) []), finally_reset w)
                else
                  (case json res of
                     None \<Rightarrow> Some (Inl InvalidJson, finally_reset w)
                   | Some j \<Rightarrow>
                       if \<not> j_status j \<or> j_token j = []
                       then Some (Inl (if j_message j \<noteq> [] then ServerMessage (j_message j)
                                       else NoToken),
                                  finally_reset w)
                       else Some (Inr (j_token j), finally_reset (w\<lparr>token := j_token j\<rparr>)))))"

declare getToken.simps [code]

text \<open>
  \<^verbatim>\<open>authorizedFetch\<close>. \<open>init\<close> is the \<^verbatim>\<open>RequestInit\<close> of the caller; a request without a
  method is a GET. \<open>the_request input ini tok\<close> is the request that is sent when
  \<^verbatim>\<open>this.config.token\<close> is \<open>tok\<close>.
\<close>

record init =
  i_method :: "string option"
  i_headers :: "(string \<times> string) list"
  i_body :: req_body

definition request_headers :: "init \<Rightarrow> string \<Rightarrow> (string \<times> string) list" where
  "request_headers ini tok =
     (let headers = foldl (\<lambda>h (k, v). AList.update k v h) [(''Accept'', ''application/json'')]
                      (i_headers ini)
      in if tok \<noteq> [] then AList.update ''Authorization'' (''Bearer '' @ tok) headers
         else headers)"

definition the_request :: "string \<Rightarrow> init \<Rightarrow> string \<Rightarrow> request" where
  "the_request input ini tok =
     \<lparr>r_url = input, r_method = (case i_method ini of Some m \<Rightarrow> m | None \<Rightarrow> ''GET''),
      r_headers = request_headers ini tok, r_body = i_body ini\<rparr>"

function authorizedFetch ::
  "env \<Rightarrow> string \<Rightarrow> init \<Rightarrow> bool \<Rightarrow> world \<Rightarrow> ((error + response) \<times> world) option" where
  "authorizedFetch env input ini retry401 w =
     (let (res, w) = fetch env (the_request input ini (token w)) w
      in case res of
           NetError \<Rightarrow> Some (Inl NetworkFailure, w)
         | Response res \<Rightarrow>
             if status res = 401 \<and> retry401
             then
               (case getToken env w of
                  None \<Rightarrow> None
                | Some (Inl e, w) \<Rightarrow> Some (Inl e, w)
                | Some (Inr t, w) \<Rightarrow> authorizedFetch env input ini False w)
             else Some (Inr res, w))"
  by pat_completeness auto
termination
  by (relation "measure (\<lambda>(env, input, ini, retry401, w). if retry401 then 1 else 0)") auto

declare authorizedFetch.simps [simp del]

definition uploadBinary ::
  "env \<Rightarrow> string \<Rightarrow> string \<Rightarrow> mime_value \<Rightarrow> world \<Rightarrow> ((error + string) \<times> world) option" where
  "uploadBinary env binary filename mimeType w =
     (let form = FormData binary filename mimeType ''1''
      in case authorizedFetch env (baseUrl w @ ''/upload'')
                \<lparr>i_method = Some ''POST'', i_headers = [], i_body = form\<rparr> True w of
           None \<Rightarrow> None
         | Some (Inl e, w) \<Rightarrow> Some (Inl e, w)
         | Some (Inr res, w) \<Rightarrow>
             if \<not> ok res
             then Some (Inl (HttpStatus (status res)
                          (case body_text res of Some details \<Rightarrow> details | None \<Rightarrow> [])), w)
             else
               (case json res of
                  None \<Rightarrow> Some (Inl InvalidJson, w)
                | Some j \<Rightarrow>
                    if \<not> j_status j \<or> j_url j = []
                    then Some (Inl (if j_message j \<noteq> [] then ServerMessage (j_message j)
                                    else UploadFailed), w)
                    else Some (Inr (j_url j), w)))"

text \<open>The decimal notation of a number, as a template literal prints it.\<close>

definition digit :: "nat \<Rightarrow> char" where
  "digit n = ''0123456789'' ! n"

function decimal :: "nat \<Rightarrow> string" where
  "decimal n = (if 10 \<le> n then decimal (n div 10) else []) @ [digit (n mod 10)]"
  by pat_completeness auto
termination
  by (relation "measure (\<lambda>n. n)") auto

declare decimal.simps [simp del]

definition number_to_string :: "int \<Rightarrow> string" where
  "number_to_string i = (if 0 \<le> i then decimal (nat i) else CHR ''-'' # decimal (nat (- i)))"

text \<open>
  \<^verbatim>\<open>listAllImages\<close>: the \<^verbatim>\<open>do ... while (page <= last)\<close> loop, which runs for as long
  as the server reports a later last page.
\<close>

definition no_init :: init where
  "no_init = \<lparr>i_method = None, i_headers = [], i_body = NoBody\<rparr>"

definition page_url :: "world \<Rightarrow> int \<Rightarrow> string" where
  "page_url w page = baseUrl w @ ''/images?page='' @ number_to_string page"

partial_function (option) listPages ::
  "env \<Rightarrow> int \<Rightarrow> LskyImageItem list \<Rightarrow> world \<Rightarrow> ((error + LskyImageItem list) \<times> world) option"
  where
  "listPages env page result w =
     (case authorizedFetch env (page_url w page) no_init True w of
        None \<Rightarrow> None
      | Some (Inl e, w) \<Rightarrow> Some (Inl e, w)
      | Some (Inr res, w) \<Rightarrow>
          if \<not> ok res then Some (Inl (HttpStatus (status res) []), w)
          else
            (case json res of
               None \<Rightarrow> Some (Inl InvalidJson, w)
             | Some j \<Rightarrow>
                 (let items = j_items j;
                      result = result @ items;
                      last = (if j_last_page j \<noteq> 0 then j_last_page j else page);
                      page = page + 1;
                      w = emit (Sleep 80) w
                  in if page \<le> last then listPages env page result w else Some (Inr result, w))))"

declare listPages.simps [code]

definition listAllImages :: "env \<Rightarrow> world \<Rightarrow> ((error + LskyImageItem list) \<times> world) option" where
  "listAllImages env w = listPages env 1 [] w"

definition deleteImageByKey :: "env \<Rightarrow> string \<Rightarrow> world \<Rightarrow> ((error + unit) \<times> world) option" where
  "deleteImageByKey env k w =
     (case authorizedFetch env (baseUrl w @ ''/images/'' @ encodeURIComponent env k)
             \<lparr>i_method = Some ''DELETE'', i_headers = [], i_body = NoBody\<rparr> True w of
        None \<Rightarrow> None
      | Some (Inl e, w) \<Rightarrow> Some (Inl e, w)
      | Some (Inr res, w) \<Rightarrow>
          if \<not> ok res then Some (Inl (HttpStatus (status res) []), w) else Some (Inr (), w))"

definition getServerOrigin :: "env \<Rightarrow> string \<Rightarrow> string option" where
  "getServerOrigin env url =
     (case parseUrl env url of
        Some u \<Rightarrow> Some (protocol u @ ''//'' @ host u)
      | None \<Rightarrow> None)"

section \<open>Operations on the document store\<close>

text \<open>
  The interface of the host application, as far as the program uses it:
  \<^verbatim>\<open>getAbstractFileByPath\<close>, \<^verbatim>\<open>getMarkdownFiles\<close>, \<^verbatim>\<open>read\<close> and \<^verbatim>\<open>readBinary\<close> (the
  contents at the path of the file), \<^verbatim>\<open>modify\<close>, \<^verbatim>\<open>modifyBinary\<close>, \<^verbatim>\<open>createFolder\<close> and
  \<^verbatim>\<open>createBinary\<close>, which fails when the path is taken.
\<close>

definition getAbstractFileByPath :: "world \<Rightarrow> string \<Rightarrow> node option" where
  "getAbstractFileByPath w path =
     (case find (\<lambda>f. f_path f = path) (files w) of
        Some f \<Rightarrow> Some (FileNode f)
      | None \<Rightarrow> if path \<in> set (folders w) then Some FolderNode else None)"

definition getMarkdownFiles :: "world \<Rightarrow> tfile list" where
  "getMarkdownFiles w = filter (\<lambda>f. f_extension f = ''md'') (files w)"

definition modify :: "tfile \<Rightarrow> string \<Rightarrow> world \<Rightarrow> world" where
  "modify f data w = emit (Modify (f_path f) data) (w\<lparr>contents := (contents w)(f_path f := data)\<rparr>)"

definition modifyBinary :: "tfile \<Rightarrow> string \<Rightarrow> world \<Rightarrow> world" where
  "modifyBinary f data w =
     emit (ModifyBinary (f_path f) data) (w\<lparr>contents := (contents w)(f_path f := data)\<rparr>)"

definition createFolder :: "string \<Rightarrow> world \<Rightarrow> world" where
  "createFolder path w = emit (CreateFolder path) (w\<lparr>folders := folders w @ [path]\<rparr>)"

definition file_at :: "string \<Rightarrow> tfile" where
  "file_at path =
     (let name = last_segment CHR ''/'' path;
          ext = (if CHR ''.'' \<in> set name then last_segment CHR ''.'' name else [])
      in \<lparr>f_path = path, f_name = name,
          f_basename = (if CHR ''.'' \<in> set name then take (length name - length ext - 1) name
                        else name),
          f_extension = ext,
          f_parent = (if CHR ''/'' \<in> set path
                      then Some (take (length path - length name - 1) path) else Some ''/'')\<rparr>)"

definition createBinary :: "string \<Rightarrow> string \<Rightarrow> world \<Rightarrow> world option" where
  "createBinary path data w =
     (if getAbstractFileByPath w path \<noteq> None then None
      else Some (emit (CreateBinary path data)
             (w\<lparr>files := files w @ [file_at path], contents := (contents w)(path := data)\<rparr>)))"

section \<open>Uploading (upload.ts)\<close>

definition generateTimestampFilename :: "env \<Rightarrow> world \<Rightarrow> string \<Rightarrow> tfile option \<Rightarrow> string" where
  "generateTimestampFilename env w originalName noteFile =
     (let baseName = (case noteFile of Some f \<Rightarrow> f_basename f | None \<Rightarrow> ''file'');
          timestamp = clock env (length (trace w));
          ext = (let e = last_segment CHR ''.'' originalName in if e \<noteq> [] then e else ''bin'')
      in baseName @ ''-'' @ decimal timestamp @ ''.'' @ ext)"

definition to_lower :: "char \<Rightarrow> char" where
  "to_lower c =
     (case map_of (zip ''ABCDEFGHIJKLMNOPQRSTUVWXYZ'' ''abcdefghijklmnopqrstuvwxyz'') c of
        Some l \<Rightarrow> l
      | None \<Rightarrow> c)"

text \<open>
  \<^verbatim>\<open>getImageMimeType\<close>: \<^verbatim>\<open>map[(extension || '').toLowerCase()] || 'application/octet-stream'\<close>.
  The lookup goes through the prototype chain of the object literal. Of the properties of
  \<^verbatim>\<open>Object.prototype\<close> only \<^verbatim>\<open>constructor\<close> and \<^verbatim>\<open>__proto__\<close> have a name without an
  upper-case letter, so only these two can be the lower-cased key; both values are truthy and
  are returned as they are. No key has a letter outside \<^verbatim>\<open>a\<close> to \<^verbatim>\<open>z\<close>, so the
  letters that \<open>to_lower\<close> leaves alone make no difference to the result.
\<close>

definition getImageMimeType :: "string \<Rightarrow> mime_value" where
  "getImageMimeType extension =
     (let key = map to_lower extension
      in case map_of
           [(''jpg'', ''image/jpeg''), (''jpeg'', ''image/jpeg''), (''png'', ''image/png''),
            (''gif'', ''image/gif''), (''webp'', ''image/webp''), (''bmp'', ''image/bmp''),
            (''svg'', ''image/svg+xml''), (''ico'', ''image/x-icon''), (''jfif'', ''image/jpeg'')]
           key of
           Some t \<Rightarrow> MimeString t
         | None \<Rightarrow>
             if key = ''constructor'' then ObjectConstructor
             else if key = ''__proto__'' then ObjectPrototype
             else MimeString ''application/octet-stream'')"

definition is_word :: "char \<Rightarrow> bool" where
  "is_word c = (c \<in> set ''ABCDEFGHIJKLMNOPQRSTUVWXYZabcdefghijklmnopqrstuvwxyz0123456789_'')"

definition uploadLocalImage ::
  "env \<Rightarrow> string \<Rightarrow> tfile \<Rightarrow> world \<Rightarrow> ((error + string) \<times> world) option" where
  "uploadLocalImage env imagePath noteFile w =
     (case locateImage (decodeURIComponent env) (getAbstractFileByPath w) (files w) imagePath
             noteFile of
        Inl e \<Rightarrow> Some (Inl e, w)
      | Inr file \<Rightarrow>
          (let binary = contents w (f_path file);
               safeName = generateTimestampFilename env w
                 (replace_all [[PlusG (\<lambda>c. \<not> is_word c \<and> c \<noteq> CHR ''-'' \<and> c \<noteq> CHR ''.'')]] ''_''
                    (f_name file))
                 (Some noteFile)
           in uploadBinary env binary safeName (getImageMimeType (f_extension file)) w))"

text \<open>
  \<^verbatim>\<open>uploadAllLocalImages\<close>. \<open>upload_step\<close> is the body of the loop over the local paths,
  with its \<^verbatim>\<open>try\<close> and \<^verbatim>\<open>catch\<close>; it also returns what \<^verbatim>\<open>uploadLocalImage\<close> gave.
\<close>

definition upload_step ::
  "env \<Rightarrow> tfile \<Rightarrow> nat \<Rightarrow> string \<Rightarrow> nat \<times> string \<times> world
     \<Rightarrow> ((error + string) \<times> nat \<times> string \<times> world) option" where
  "upload_step env doc n_total p st =
     (case st of (success, updated, w) \<Rightarrow>
        (case uploadLocalImage env p doc w of
           None \<Rightarrow> None
         | Some (Inr url, w) \<Rightarrow>
             (let updated = replaceImageLink updated p url;
                  success = success + 1;
                  w = emit (Notice (UploadSucceeded success n_total (last_segment CHR ''/'' p))) w;
                  w = emit (ProgressIncrement (Label (last_segment CHR ''/'' p))) w
              in Some (Inr url, success, updated, w))
         | Some (Inl e, w) \<Rightarrow>
             (let w = emit (Notice (UploadFailedFor p e)) w;
                  w = emit (ProgressIncrement FailedLabel) w
              in Some (Inl e, success, updated, w))))"

fun upload_loop ::
  "env \<Rightarrow> tfile \<Rightarrow> nat \<Rightarrow> string list \<Rightarrow> nat \<times> string \<times> world \<Rightarrow> (nat \<times> string \<times> world) option"
  where
  "upload_loop env doc n_total [] st = Some st"
| "upload_loop env doc n_total (p # ps) st =
     (case upload_step env doc n_total p st of
        None \<Rightarrow> None
      | Some (r, st) \<Rightarrow> upload_loop env doc n_total ps st)"

definition uploadAllLocalImages :: "env \<Rightarrow> world \<Rightarrow> world option" where
  "uploadAllLocalImages env w =
     (case activeFile env of
        None \<Rightarrow> Some (emit (Notice NoActiveNote) w)
      | Some doc \<Rightarrow>
          (let content = contents w (f_path doc);
               localPaths = extractLocalImagePaths content
           in if localPaths = [] then Some (emit (Notice NoLocalImages) w)
              else
                (let w = emit (Notice (FoundLocalImages (length localPaths))) w;
                     w = emit (ProgressOpen UploadTitle) w;
                     w = emit (ProgressTotal (length localPaths)) w
                 in case upload_loop env doc (length localPaths) localPaths (0, content, w) of
                      None \<Rightarrow> None
                    | Some (success, updated, w) \<Rightarrow>
                        (let w = emit ProgressClose w;
                             w = (if success > 0 then modify doc updated w else w)
                         in Some (emit (Notice (UploadFinished success (length localPaths))) w)))))"

section \<open>Remote references and downloading (download.ts)\<close>

definition mdRemoteRegex :: "atom list" where
  "mdRemoteRegex = [Lit ''!['', StarL dot, Lit '']('', Lit ''http'', Opt ''s'', Lit ''://'',
     PlusG (\<lambda>c. \<not> is_space c \<and> c \<noteq> CHR '')''), Lit '')'']"

definition htmlRemoteRegex :: "atom list" where
  "htmlRemoteRegex = [Lit ''<img'', PlusG (\<lambda>c. c \<noteq> CHR ''>''), Lit (''src='' @ [dq]),
     Lit ''http'', Opt ''s'', Lit ''://'', PlusG (\<lambda>c. c \<noteq> dq \<and> c \<noteq> CHR ''>''), Lit [dq]]"

definition wikiRemoteRegex :: "atom list" where
  "wikiRemoteRegex = [Lit ''![['', Lit ''http'', Opt ''s'', Lit ''://'',
     PlusG (\<lambda>c. c \<noteq> CHR '']''), Lit '']]'']"

text \<open>The pattern that strips the syntax around the address from a matched text.\<close>

definition syntaxRegex :: "atom list list" where
  "syntaxRegex =
     [[Lit ''!['', StarL dot, Lit ''](''],
      [Lit '')''],
      [Lit ''<img'', PlusG (\<lambda>c. c \<noteq> CHR ''>''), Lit (''src='' @ [dq])],
      [Lit [dq]],
      [Lit ''![[''],
      [Lit '']]'']]"

definition remote_matches :: "string \<Rightarrow> string list" where
  "remote_matches content =
     (let md = map concat (rx_scan [mdRemoteRegex] content);
          html = map concat (rx_scan [htmlRemoteRegex] content);
          wiki = map concat (rx_scan [wikiRemoteRegex] content)
      in md @ html @ wiki)"

definition add_remote :: "string \<Rightarrow> string list \<Rightarrow> string \<Rightarrow> string list" where
  "add_remote origin urls s =
     (let url = replace_all syntaxRegex [] s
      in if url \<noteq> [] \<and> prefix origin url then set_add urls url else urls)"

definition extractRemoteImageUrls :: "string \<Rightarrow> string \<Rightarrow> string list" where
  "extractRemoteImageUrls content origin = foldl (add_remote origin) [] (remote_matches content)"

definition fileNameFromUrl :: "env \<Rightarrow> string \<Rightarrow> string" where
  "fileNameFromUrl env u =
     (case parseUrl env u of
        None \<Rightarrow> ''image''
      | Some parsed \<Rightarrow>
          (let name = (let n = last_segment CHR ''/'' (pathname parsed)
                       in if n \<noteq> [] then n else ''image'')
           in case decodeURIComponent env name of Some d \<Rightarrow> d | None \<Rightarrow> ''image''))"

definition replaceUrlWithRelative :: "string \<Rightarrow> string \<Rightarrow> string \<Rightarrow> string" where
  "replaceUrlWithRelative content u fileName =
     (let content = replace_all [[Lit ''!['', StarL dot, Lit ('']('' @ u @ '')'')]]
                      (''![['' @ fileName @ '']]'') content;
          content = replace_all [[Lit ''<img'', PlusG (\<lambda>c. c \<noteq> CHR ''>''),
                        Lit (''src='' @ [dq] @ u @ [dq]), StarG (\<lambda>c. c \<noteq> CHR ''>''), Lit ''>'']]
                      (''![['' @ fileName @ '']]'') content;
          content = replace_all [[Lit (''![['' @ u @ '']]'')]]
                      (''![['' @ fileName @ '']]'') content
      in content)"

definition ensureFolder :: "string \<Rightarrow> world \<Rightarrow> world" where
  "ensureFolder path w = (if getAbstractFileByPath w path = None then createFolder path w else w)"

definition downloadToBinary :: "env \<Rightarrow> string \<Rightarrow> world \<Rightarrow> string option \<times> world" where
  "downloadToBinary env u w =
     (requestUrl env (tick w) u, emit (Download u) (w\<lparr>tick := tick w + 1\<rparr>))"

text \<open>
  The body of the loop over the addresses of a document: \<open>None\<close> when the \<^verbatim>\<open>try\<close> block
  throws, otherwise the name of the stored file.
\<close>

definition download_one :: "env \<Rightarrow> string \<Rightarrow> string \<Rightarrow> world \<Rightarrow> string option \<times> world" where
  "download_one env folder u w =
     (case downloadToBinary env u w of
        (None, w) \<Rightarrow> (None, w)
      | (Some bin, w) \<Rightarrow>
          (let name = fileNameFromUrl env u;
               target = folder @ ''/'' @ name
           in case getAbstractFileByPath w target of
                Some (FileNode f) \<Rightarrow> (Some name, modifyBinary f bin w)
              | _ \<Rightarrow> (case createBinary target bin w of
                         Some w \<Rightarrow> (Some name, w)
                       | None \<Rightarrow> (None, w))))"

fun download_current_loop :: "env \<Rightarrow> string \<Rightarrow> string list \<Rightarrow> string \<times> world \<Rightarrow> string \<times> world" where
  "download_current_loop env folder [] st = st"
| "download_current_loop env folder (u # us) (updated, w) =
     (case download_one env folder u w of
        (Some name, w) \<Rightarrow>
          download_current_loop env folder us
            (replaceUrlWithRelative updated u name, emit (ProgressIncrement (Label name)) w)
      | (None, w) \<Rightarrow>
          download_current_loop env folder us
            (updated, emit (ProgressIncrement FailedLabel) (emit (Notice (DownloadFailedFor u)) w)))"

definition note_folder :: "tfile \<Rightarrow> string" where
  "note_folder f = (case f_parent f of Some d \<Rightarrow> d @ ''/'' | None \<Rightarrow> []) @ f_basename f"

definition downloadImagesForCurrentNote :: "env \<Rightarrow> string \<Rightarrow> world \<Rightarrow> world" where
  "downloadImagesForCurrentNote env server w =
     (case getServerOrigin env server of
        None \<Rightarrow> emit (Notice InvalidServerUrl) w
      | Some origin \<Rightarrow>
          (case activeFile env of
             None \<Rightarrow> emit (Notice NoActiveNote) w
           | Some doc \<Rightarrow>
               (let content = contents w (f_path doc);
                    urls = extractRemoteImageUrls content origin
                in if urls = [] then emit (Notice NoRemoteImages) w
                   else
                     (let folder = note_folder doc;
                          w = ensureFolder folder w;
                          w = emit (ProgressOpen DownloadCurrentTitle) w;
                          w = emit (ProgressTotal (length urls)) w;
                          (updated, w) = download_current_loop env folder urls (content, w);
                          w = emit ProgressClose w;
                          w = modify doc updated w
                      in emit (Notice (DownloadFinished (length urls))) w))))"

fun download_note_loop ::
  "env \<Rightarrow> string \<Rightarrow> string list \<Rightarrow> string \<times> nat \<times> world \<Rightarrow> string \<times> nat \<times> world" where
  "download_note_loop env folder [] st = st"
| "download_note_loop env folder (u # us) (content, n_total, w) =
     (case download_one env folder u w of
        (Some name, w) \<Rightarrow>
          download_note_loop env folder us (replaceUrlWithRelative content u name, n_total + 1, w)
      | (None, w) \<Rightarrow> download_note_loop env folder us (content, n_total, w))"

fun download_all_loop :: "env \<Rightarrow> string \<Rightarrow> tfile list \<Rightarrow> nat \<times> world \<Rightarrow> nat \<times> world" where
  "download_all_loop env origin [] st = st"
| "download_all_loop env origin (f # fs) (n_total, w) =
     (let content = contents w (f_path f);
          urls = extractRemoteImageUrls content origin
      in if urls = [] then download_all_loop env origin fs (n_total, w)
         else
           (let folder = note_folder f;
                w = ensureFolder folder w;
                (content, n_total, w) = download_note_loop env folder urls (content, n_total, w);
                w = modify f content w;
                w = emit (ProgressIncrement (Label (f_basename f))) w
            in download_all_loop env origin fs (n_total, w)))"

definition downloadImagesForAllNotes :: "env \<Rightarrow> string \<Rightarrow> world \<Rightarrow> world" where
  "downloadImagesForAllNotes env server w =
     (case getServerOrigin env server of
        None \<Rightarrow> emit (Notice InvalidServerUrl) w
      | Some origin \<Rightarrow>
          (let fs = getMarkdownFiles w;
               w = emit (ProgressOpen DownloadAllTitle) w;
               w = emit (ProgressTotal (length fs)) w;
               (n_total, w) = download_all_loop env origin fs (0, w);
               w = emit ProgressClose w
           in emit (Notice (AllDownloadsFinished n_total)) w))"

section \<open>Reconciliation (cleanup.ts)\<close>

definition collectUsedImageUrls :: "world \<Rightarrow> string \<Rightarrow> string list" where
  "collectUsedImageUrls w serverOrigin =
     foldl (\<lambda>urls f. foldl (add_remote serverOrigin) urls (remote_matches (contents w (f_path f))))
       [] (getMarkdownFiles w)"

definition confirmCleanup :: "env \<Rightarrow> LskyImageItem list \<Rightarrow> nat \<Rightarrow> world \<Rightarrow> bool \<times> world" where
  "confirmCleanup env unused n_total w = (confirm env unused n_total, emit (Confirm unused n_total) w)"

fun delete_loop ::
  "env \<Rightarrow> LskyImageItem list \<Rightarrow> string list \<times> string list \<times> world
     \<Rightarrow> (string list \<times> string list \<times> world) option" where
  "delete_loop env [] st = Some st"
| "delete_loop env (img # imgs) (success, failed, w) =
     (case deleteImageByKey env (img_key img) w of
        None \<Rightarrow> None
      | Some (r, w) \<Rightarrow>
          (let (success, failed) =
                 (case r of
                    Inr u \<Rightarrow> (success @ [img_url img], failed)
                  | Inl e \<Rightarrow> (success, failed @ [img_url img]));
               w = emit (ProgressIncrement
                     (Label (if img_name img \<noteq> [] then img_name img else img_url img))) w;
               w = emit (Sleep 150) w
           in delete_loop env imgs (success, failed, w)))"

text \<open>
  \<^verbatim>\<open>cleanupUnusedImages\<close>. The scan of the documents and the listing are started together;
  they read disjoint parts of the state, and the scan is put first here. \<open>Inl\<close> is the error
  with which the returned promise is rejected.
\<close>

definition cleanupUnusedImages :: "env \<Rightarrow> string \<Rightarrow> world \<Rightarrow> ((error + unit) \<times> world) option" where
  "cleanupUnusedImages env server w =
     (case getServerOrigin env server of
        None \<Rightarrow> Some (Inr (), emit (Notice InvalidServerUrl) w)
      | Some origin \<Rightarrow>
          (let w = emit (Notice ScanStarted) w;
               used = collectUsedImageUrls w origin
           in case listAllImages env w of
                None \<Rightarrow> None
              | Some (Inl e, w) \<Rightarrow> Some (Inl e, w)
              | Some (Inr all, w) \<Rightarrow>
                  (let toDelete = filter (\<lambda>img. img_url img \<notin> set used) all
                   in if toDelete = [] then Some (Inr (), emit (Notice NothingToClean) w)
                      else
                        (case confirmCleanup env toDelete (length all) w of
                           (False, w) \<Rightarrow> Some (Inr (), emit (Notice Cancelled) w)
                         | (True, w) \<Rightarrow>
                             (let w = emit (ProgressOpen CleanupTitle) w;
                                  w = emit (ProgressTotal (length toDelete)) w
                              in case delete_loop env toDelete ([], [], w) of
                                   None \<Rightarrow> None
                                 | Some (success, failed, w) \<Rightarrow>
                                     (let w = emit ProgressClose w
                                      in Some (Inr (), emit (ShowResult success failed) w)))))))"

text \<open>
  The events of \<open>n\<close> page requests in a row, the first one for page \<open>page\<close>: each request
  is followed by the pause of 80 ms.
\<close>

definition page_events :: "world \<Rightarrow> int \<Rightarrow> nat \<Rightarrow> event list" where
  "page_events w page n =
     concat (map (\<lambda>i. [Fetch (the_request (page_url w (page + int i)) no_init (token w)), Sleep 80])
       [0..<n])"

text \<open>The deletion requests among the events so far.\<close>

definition is_deletion :: "event \<Rightarrow> bool" where
  "is_deletion e = (case e of Fetch rq \<Rightarrow> r_method rq = ''DELETE'' | _ \<Rightarrow> False)"

definition deletions :: "world \<Rightarrow> event list" where
  "deletions w = filter is_deletion (trace w)"

text \<open>
  The candidates of one variant in the words of the specification: the attachments prefix is
  stripped where the path starts with it.
\<close>

definition claimed_candidates :: "tfile \<Rightarrow> string \<Rightarrow> string list" where
  "claimed_candidates doc v =
     [resolveImagePath v doc]
     @ (if prefix ''attachments/'' v then [drop (length ''attachments/'') v] else [])
     @ [v]
     @ (if \<not> prefix ''attachments/'' v then [''attachments/'' @ v] else [])
     @ [(case f_parent doc of Some d \<Rightarrow> d @ ''/'' | None \<Rightarrow> []) @ v]
     @ [''Attachments/'' @ v]
     @ [(case f_parent doc of Some d \<Rightarrow> d @ ''/'' | None \<Rightarrow> []) @ f_basename doc @ ''/''
          @ last_segment CHR ''/'' v]"

text \<open>
  The candidates of one variant as the program pushes them: the first occurrence of
  \<^verbatim>\<open>attachments/\<close> is removed wherever it stands; the path in the folder of the document
  is there when the document has a folder with a non-empty path, and the same-named-folder
  path when the path has a last segment.
\<close>

definition candidates :: "tfile \<Rightarrow> string \<Rightarrow> string list" where
  "candidates doc v =
     [resolveImagePath v doc]
     @ (if sublist ''attachments/'' v then [remove_first ''attachments/'' v] else [])
     @ [v]
     @ (if \<not> prefix ''attachments/'' v then [''attachments/'' @ v] else [])
     @ (case f_parent doc of Some d \<Rightarrow> if d \<noteq> [] then [d @ ''/'' @ v] else [] | None \<Rightarrow> [])
     @ [''Attachments/'' @ v]
     @ (if last_segment CHR ''/'' v \<noteq> []
        then [(case f_parent doc of Some d \<Rightarrow> d @ ''/'' | None \<Rightarrow> []) @ f_basename doc @ ''/''
               @ last_segment CHR ''/'' v]
        else [])"

text \<open>The decoded path and the name of the last search of \<^verbatim>\<open>uploadLocalImage\<close>.\<close>

definition decoded_path :: "(string \<Rightarrow> string option) \<Rightarrow> string \<Rightarrow> string" where
  "decoded_path dec p = (case dec p of Some d \<Rightarrow> d | None \<Rightarrow> p)"

definition search_name :: "string \<Rightarrow> string" where
  "search_name decoded =
     strip_brackets (last_segment CHR ''/'' (replace_all [[Lit [backslash]]] ''/'' decoded))"

section \<open>Concurrent calls of getToken\<close>

text \<open>
  The scheduler is single-threaded and cooperative: a call runs until it awaits, and another
  one may run before it is resumed. A call of \<^verbatim>\<open>getToken\<close> is at its entry, in the 200 ms
  wait of the polling branch, waiting for the response to its POST, waiting for the body of
  the response, or settled with its result. The calls share the flag and the token of the
  client; \<open>c_requests\<close> counts the authentication requests that have reached the network
  layer.
\<close>

datatype call = Entering | Polling | AwaitingResponse | AwaitingJson response | Settled "error + string"

record client =
  c_isFetchingToken :: bool
  c_token :: string
  c_requests :: nat
  c_calls :: "call list"

text \<open>
  From the entry of \<^verbatim>\<open>getToken\<close> to its first \<^verbatim>\<open>await\<close>: the wait when the flag is
  set, otherwise the flag is set and the request is sent.
\<close>

definition enter :: "nat \<Rightarrow> client \<Rightarrow> client" where
  "enter i c =
     (if c_isFetchingToken c then c\<lparr>c_calls := (c_calls c)[i := Polling]\<rparr>
      else c\<lparr>c_isFetchingToken := True, c_requests := c_requests c + 1,
             c_calls := (c_calls c)[i := AwaitingResponse]\<rparr>)"

text \<open>The \<^verbatim>\<open>finally\<close> block clears the flag, and the call is settled.\<close>

definition settle :: "nat \<Rightarrow> error + string \<Rightarrow> client \<Rightarrow> client" where
  "settle i r c = c\<lparr>c_isFetchingToken := False, c_calls := (c_calls c)[i := Settled r]\<rparr>"

text \<open>
  One step of the scheduler: call \<open>i\<close> is resumed and runs to its next \<^verbatim>\<open>await\<close>. A call
  whose wait is over calls \<^verbatim>\<open>getToken\<close> again. \<open>answer\<close> is what the network delivers to
  a call that waits for its response; the other calls do not look at it.
\<close>

definition resume :: "nat \<times> net_result \<Rightarrow> client \<Rightarrow> client" where
  "resume a c =
     (case a of (i, answer) \<Rightarrow>
        if i < length (c_calls c)
        then
          (case c_calls c ! i of
             Entering \<Rightarrow> enter i c
           | Polling \<Rightarrow> enter i c
           | AwaitingResponse \<Rightarrow>
               (case answer of
                  NetError \<Rightarrow> settle i (Inl NetworkFailure) c
                | Response res \<Rightarrow>
                    if \<not> ok res then settle i (Inl (HttpStatus (status res) [])) c
                    else c\<lparr>c_calls := (c_calls c)[i := AwaitingJson res]\<rparr>)
           | AwaitingJson res \<Rightarrow>
               (case json res of
                  None \<Rightarrow> settle i (Inl InvalidJson) c
                | Some j \<Rightarrow>
                    if \<not> j_status j \<or> j_token j = []
                    then settle i (Inl (if j_message j \<noteq> [] then ServerMessage (j_message j)
                                        else NoToken)) c
                    else settle i (Inr (j_token j)) (c\<lparr>c_token := j_token j\<rparr>))
           | Settled r \<Rightarrow> c)
        else c)"

definition run :: "(nat \<times> net_result) list \<Rightarrow> client \<Rightarrow> client" where
  "run schedule c = foldl (\<lambda>c a. resume a c) c schedule"

definition start :: "nat \<Rightarrow> string \<Rightarrow> client" where
  "start n tok = \<lparr>c_isFetchingToken = False, c_token = tok, c_requests = 0,
     c_calls = replicate n Entering\<rparr>"

text \<open>
  For the statement of properties: the calls whose request is in flight, the calls that have
  sent a request, the settled calls.
\<close>

definition awaiting :: "call \<Rightarrow> bool" where
  "awaiting k = (case k of AwaitingResponse \<Rightarrow> True | AwaitingJson res \<Rightarrow> True | _ \<Rightarrow> False)"

definition issued :: "call \<Rightarrow> bool" where
  "issued k = (case k of Entering \<Rightarrow> False | Polling \<Rightarrow> False | _ \<Rightarrow> True)"

definition settled :: "call \<Rightarrow> bool" where
  "settled k = (case k of Settled r \<Rightarrow> True | _ \<Rightarrow> False)"

definition in_flight :: "client \<Rightarrow> nat" where
  "in_flight c = length (filter awaiting (c_calls c))"

definition single_flight :: "client \<Rightarrow> bool" where
  "single_flight c \<longleftrightarrow> in_flight c = (if c_isFetchingToken c then 1 else 0)
     \<and> c_requests c = length (filter issued (c_calls c))"

section \<open>Notes as sequences of text and references\<close>

text \<open>A note is written as a sequence of pieces: plain text, and references in the three
  recognized forms. \<open>render\<close> gives the text of the note; a piece is well formed when its
  components contain none of the characters that delimit the forms, a path is not empty and
  has no white space around it, and an inline tag has something between \<open><img\<close> and
  \<open>src\<close>.\<close>

datatype piece = Text string | Md string string | Html string string string | Wiki string

fun render_piece :: "piece \<Rightarrow> string" where
  "render_piece (Text t) = t"
| "render_piece (Md alt p) = ''!['' @ alt @ '']('' @ p @ '')''"
| "render_piece (Html pre p post) = ''<img'' @ pre @ ''src='' @ [dq] @ p @ [dq] @ post @ ''>''"
| "render_piece (Wiki p) = ''![['' @ p @ '']]''"

definition render :: "piece list \<Rightarrow> string" where
  "render d = concat (map render_piece d)"

fun md_paths :: "piece list \<Rightarrow> string list" where
  "md_paths [] = []"
| "md_paths (Md alt p # d) = p # md_paths d"
| "md_paths (x # d) = md_paths d"

fun html_paths :: "piece list \<Rightarrow> string list" where
  "html_paths [] = []"
| "html_paths (Html pre p post # d) = p # html_paths d"
| "html_paths (x # d) = html_paths d"

fun wiki_paths :: "piece list \<Rightarrow> string list" where
  "wiki_paths [] = []"
| "wiki_paths (Wiki p # d) = p # wiki_paths d"
| "wiki_paths (x # d) = wiki_paths d"

definition plain :: "char \<Rightarrow> bool" where
  "plain c = (c \<noteq> CHR ''!'' \<and> c \<noteq> CHR ''<'' \<and> c \<noteq> CHR ''>'' \<and> c \<noteq> CHR ''('' \<and> c \<noteq> CHR '')''
     \<and> c \<noteq> CHR ''['' \<and> c \<noteq> CHR '']'' \<and> c \<noteq> dq)"

definition well_formed_path :: "string \<Rightarrow> bool" where
  "well_formed_path p = (p \<noteq> [] \<and> list_all plain p \<and> trim p = p)"

fun well_formed_piece :: "piece \<Rightarrow> bool" where
  "well_formed_piece (Text t) = list_all plain t"
| "well_formed_piece (Md alt p) = (list_all plain alt \<and> list_all dot alt \<and> well_formed_path p)"
| "well_formed_piece (Html pre p post) = (pre \<noteq> [] \<and> list_all plain pre \<and> well_formed_path p \<and> list_all plain post)"
| "well_formed_piece (Wiki p) = well_formed_path p"

definition well_formed :: "piece list \<Rightarrow> bool" where
  "well_formed d = list_all well_formed_piece d"

fun is_reference :: "piece \<Rightarrow> bool" where
  "is_reference (Text t) = False"
| "is_reference x = True"

text \<open>The paths of the references, in the order in which the extractors find them: form by
  form.\<close>

definition references :: "piece list \<Rightarrow> string list" where
  "references d = md_paths d @ html_paths d @ wiki_paths d"

text \<open>What the remote patterns accept as a path: \<open>http://\<close> or \<open>https://\<close> and at least
  one more character; \<open>url_pieces\<close> cuts such a path the way the pattern does.\<close>

definition is_url :: "string \<Rightarrow> bool" where
  "is_url p = ((prefix ''https://'' p \<and> 8 < length p) \<or> (prefix ''http://'' p \<and> 7 < length p))"

definition url_pieces :: "string \<Rightarrow> string list" where
  "url_pieces p = (if prefix ''https://'' p then [''http'', ''s'', ''://'', drop 8 p]
     else [''http'', [], ''://'', drop 7 p])"

text \<open>A note all of whose references are remote. The markdown pattern stops a URL at white
  space, and the greedy \<open>[^>]+\<close> of the pattern that strips an inline tag takes a URL ending
  in \<open>src=\<close> for a part of the tag, so both are excluded.\<close>

definition remote_note :: "piece list \<Rightarrow> bool" where
  "remote_note d = (well_formed d \<and> list_all is_url (references d)
     \<and> list_all (list_all (\<lambda>c. \<not> is_space c)) (md_paths d)
     \<and> list_all (\<lambda>p. \<not> suffix ''src='' p) (html_paths d))"

text \<open>Where the lazy \<open>.*?\<close> of the markdown patterns ends when it starts before the pieces
  \<open>d\<close>: at the first markdown reference, if everything before it is on the same line.\<close>

fun reach :: "piece list \<Rightarrow> (string \<times> string \<times> piece list) option" where
  "reach [] = None"
| "reach (Md alt p # d) = Some (''!['' @ alt, p, d)"
| "reach (x # d) = (if list_all dot (render_piece x)
     then map_option (\<lambda>(sk, p, d'). (render_piece x @ sk, p, d')) (reach d) else None)"

text \<open>The piece of the subject that an atom of a pattern can match.\<close>

fun fits :: "atom \<Rightarrow> string \<Rightarrow> bool" where
  "fits (Lit l) x = (x = l)"
| "fits (Opt l) x = (x = l \<or> x = [])"
| "fits (StarL P) x = list_all P x"
| "fits (StarG P) x = list_all P x"
| "fits (PlusG P) x = (list_all P x \<and> x \<noteq> [])"

text \<open>
  For the rewriters. A piece opens when it starts with \<^verbatim>\<open>![\<close>. The markdown pattern of a
  rewriter, \<^verbatim>\<open>!\[.*?\]\(p\)\<close>, is tried at every such place, and its \<^verbatim>\<open>.*?\<close> runs to the
  first \<^verbatim>\<open>](p)\<close> on the same line. \<open>line_free p d\<close>: the line that goes on into the pieces
  \<open>d\<close> ends before any markdown reference to \<open>p\<close>. \<open>separated p d\<close>: every markdown
  reference to \<open>p\<close> is reached only from its own \<^verbatim>\<open>![\<close>, that is, a piece that opens and is
  not itself a markdown reference to \<open>p\<close> has a line break between it and the next such
  reference.
\<close>

fun is_md_to :: "string \<Rightarrow> piece \<Rightarrow> bool" where
  "is_md_to p (Md alt q) = (q = p)"
| "is_md_to p x = False"

fun opens :: "piece \<Rightarrow> bool" where
  "opens (Md alt q) = True"
| "opens (Wiki q) = True"
| "opens x = False"

fun line_free :: "string \<Rightarrow> piece list \<Rightarrow> bool" where
  "line_free p [] = True"
| "line_free p (x # d) = (\<not> is_md_to p x \<and> (\<not> list_all dot (render_piece x) \<or> line_free p d))"

fun separated :: "string \<Rightarrow> piece list \<Rightarrow> bool" where
  "separated p [] = True"
| "separated p (x # d) = ((\<not> opens x \<or> is_md_to p x \<or> line_free p (x # d)) \<and> separated p d)"

text \<open>
  What the rewriters make of a piece: \<^verbatim>\<open>replaceImageLink\<close> writes the link \<^verbatim>\<open>![](r)\<close> for a
  markdown reference and for a wiki embed, and for an inline tag the tag \<^verbatim>\<open><img src="r"\<close>
  followed by what stood after the \<^verbatim>\<open>src\<close> attribute; \<^verbatim>\<open>replaceUrlWithRelative\<close> writes the
  embed \<^verbatim>\<open>![[f]]\<close> for all three.
\<close>

fun upload_piece :: "string \<Rightarrow> string \<Rightarrow> piece \<Rightarrow> piece" where
  "upload_piece p r (Text t) = Text t"
| "upload_piece p r (Md alt q) = (if q = p then Md [] r else Md alt q)"
| "upload_piece p r (Html pre q post) = (if q = p then Html '' '' r post else Html pre q post)"
| "upload_piece p r (Wiki q) = (if q = p then Md [] r else Wiki q)"

fun download_piece :: "string \<Rightarrow> string \<Rightarrow> piece \<Rightarrow> piece" where
  "download_piece u f (Text t) = Text t"
| "download_piece u f (Md alt q) = (if q = u then Wiki f else Md alt q)"
| "download_piece u f (Html pre q post) = (if q = u then Wiki f else Html pre q post)"
| "download_piece u f (Wiki q) = (if q = u then Wiki f else Wiki q)"

section \<open>A small installation\<close>

text \<open>
  A server at \<^verbatim>\<open>http://h/api\<close>, a document store with one note, and an environment in
  which nothing answers; the examples below change the parts they need.
\<close>

definition note_md :: tfile where
  "note_md = \<lparr>f_path = ''notes/n.md'', f_name = ''n.md'', f_basename = ''n'',
     f_extension = ''md'', f_parent = Some ''notes''\<rparr>"

definition world0 :: world where
  "world0 = \<lparr>serverUrl = ''http://h/api/'', email = ''me@h'', password = ''secret'',
     token = ''old'', isFetchingToken = False, files = [note_md], folders = [''notes''],
     contents = (\<lambda>p. []), tick = 0, trace = []\<rparr>"

definition env0 :: env where
  "env0 = \<lparr>net = (\<lambda>n. NetError), requestUrl = (\<lambda>n u. None), confirm = (\<lambda>unused n. False),
     clock = (\<lambda>n. 0), activeFile = Some note_md, decodeURIComponent = Some,
     encodeURIComponent = (\<lambda>s. s), parseUrl = (\<lambda>s. None)\<rparr>"

definition empty_payload :: payload where
  "empty_payload = \<lparr>j_status = True, j_message = [], j_token = [], j_url = [], j_last_page = 0,
     j_items = []\<rparr>"

definition reply :: "nat \<Rightarrow> payload \<Rightarrow> net_result" where
  "reply code j = Response \<lparr>status = code, json = Some j, body_text = None\<rparr>"

definition unauthorized :: response where
  "unauthorized = \<lparr>status = 401, json = None, body_text = None\<rparr>"

definition expired_net :: "nat \<Rightarrow> net_result" where
  "expired_net n =
     (if n = 1 then reply 200 (empty_payload\<lparr>j_token := ''new''\<rparr>) else Response unauthorized)"

definition image_A :: LskyImageItem where
  "image_A = \<lparr>img_key = ''a'', img_name = ''A'', img_url = ''http://h/A.png''\<rparr>"

definition image_B :: LskyImageItem where
  "image_B = \<lparr>img_key = ''b'', img_name = ''B'', img_url = ''http://h/B.png''\<rparr>"

definition image_C :: LskyImageItem where
  "image_C = \<lparr>img_key = ''c'', img_name = ''C'', img_url = ''http://h/C.png''\<rparr>"

definition two_pages :: "payload list" where
  "two_pages =
     [empty_payload\<lparr>j_last_page := 2, j_items := [image_A, image_B]\<rparr>,
      empty_payload\<lparr>j_last_page := 2, j_items := [image_C]\<rparr>]"

definition paged_net :: "nat \<Rightarrow> net_result" where
  "paged_net n = (if n < 2 then reply 200 (two_pages ! n) else NetError)"

text \<open>
  The note refers to image B; the inventory consists of A, B and C, listed on one page; the
  user declines.
\<close>

definition world_abc :: world where
  "world_abc =
     world0\<lparr>contents := (\<lambda>p. if p = ''notes/n.md'' then ''![b](http://h/B.png)'' else [])\<rparr>"

definition env_abc :: env where
  "env_abc = env0\<lparr>net := (\<lambda>n. reply 200 (empty_payload\<lparr>j_last_page := 1,
       j_items := [image_A, image_B, image_C]\<rparr>)),
     parseUrl := (\<lambda>s. Some \<lparr>protocol = ''http:'', host = ''h'', pathname = ''/api/''\<rparr>)\<rparr>"

text \<open>
  A note with two local references on one line; the image of the first one is not in the
  store; the server stores every upload.
\<close>

definition one_line :: string where
  "one_line = ''![b](b.png) ![a](a.png)''"

definition world_line :: world where
  "world_line = world0\<lparr>files := [note_md, file_at ''notes/a.png''],
     contents := (\<lambda>p. if p = ''notes/n.md'' then one_line else ''binary'')\<rparr>"

definition env_up :: env where
  "env_up = env0\<lparr>net := (\<lambda>n. reply 200 (empty_payload\<lparr>j_url := ''http://h/i/'' @ decimal n\<rparr>))\<rparr>"

text \<open>
  Two calls: the second one arrives while the first one waits for its response, and is
  resumed after the first one has settled.
\<close>

definition token_reply :: "string \<Rightarrow> net_result" where
  "token_reply t = reply 200 (empty_payload\<lparr>j_token := t\<rparr>)"

definition one_after_the_other :: "(nat \<times> net_result) list" where
  "one_after_the_other =
     [(0, NetError), (1, NetError), (0, token_reply ''t1''), (0, NetError),
      (1, NetError), (1, token_reply ''t2''), (1, NetError)]"

definition mixed_note :: "piece list" where
  "mixed_note = [Wiki ''z.png'', Text '' and '', Md ''a'' ''img/x.png'', Text [CHR 0x0A],
     Html '' alt=1 '' ''y.png'' '' /'', Text ''.'']"

definition hosted_note :: "piece list" where
  "hosted_note = [Wiki ''https://h/z.png'', Text '' and '', Md ''a'' ''https://h/x.png'', Text [CHR 0x0A],
     Html '' alt=1 '' ''https://h/y.png'' '' /'', Text ''.'']"

text \<open>
  Notes with several references to one path, two of them on one line, and with references to
  other paths after them.
\<close>

definition two_on_a_line :: "piece list" where
  "two_on_a_line = [Text ''see '', Md ''a'' ''p.png'', Text '' and '', Md ''b'' ''p.png'',
     Text '' then '', Md ''c'' ''q.png'', Text [CHR 0x0A], Wiki ''q.png'', Text [CHR 0x0A],
     Html '' alt=1 '' ''p.png'' '' /'', Wiki ''p.png'']"

definition remote_line :: "piece list" where
  "remote_line = [Text ''see '', Md ''a'' ''https://h/x.png'', Text '' and '', Wiki ''https://h/x.png'',
     Text [CHR 0x0A], Html '' alt=1 '' ''https://h/x.png'' '' /'', Md ''c'' ''https://h/z.png'']"

section \<open>Properties\<close>

subsection \<open>The state\<close>

lemma emit_sel [simp]:
  "serverUrl (emit e w) = serverUrl w"
  "email (emit e w) = email w"
  "password (emit e w) = password w"
  "token (emit e w) = token w"
  "isFetchingToken (emit e w) = isFetchingToken w"
  "files (emit e w) = files w"
  "folders (emit e w) = folders w"
  "contents (emit e w) = contents w"
  "tick (emit e w) = tick w"
  "trace (emit e w) = trace w @ [e]"
  by (simp_all add: emit_def)

lemma baseUrl_frame [simp]:
  "baseUrl (w\<lparr>tick := n\<rparr>) = baseUrl w"
  "baseUrl (w\<lparr>trace := es\<rparr>) = baseUrl w"
  "baseUrl (w\<lparr>isFetchingToken := b\<rparr>) = baseUrl w"
  "baseUrl (w\<lparr>token := t\<rparr>) = baseUrl w"
  "baseUrl (w\<lparr>contents := c\<rparr>) = baseUrl w"
  "baseUrl (emit e w) = baseUrl w"
  by (simp_all add: baseUrl_def)

lemma token_request_frame [simp]:
  "token_request (w\<lparr>tick := n\<rparr>) = token_request w"
  "token_request (w\<lparr>trace := es\<rparr>) = token_request w"
  "token_request (w\<lparr>isFetchingToken := b\<rparr>) = token_request w"
  "token_request (w\<lparr>token := t\<rparr>) = token_request w"
  "token_request (w\<lparr>contents := c\<rparr>) = token_request w"
  "token_request (emit e w) = token_request w"
  by (simp_all add: token_request_def)

subsection \<open>The client, when no acquisition of a token is in flight\<close>

lemma getToken_idle:
  assumes "\<not> isFetchingToken w"
  shows "getToken env w =
     (let w1 = emit (Fetch (token_request w)) (w\<lparr>isFetchingToken := True, tick := tick w + 1\<rparr>)
      in case net env (tick w) of
           NetError \<Rightarrow> Some (Inl NetworkFailure, finally_reset w1)
         | Response res \<Rightarrow>
             if \<not> ok res then Some (Inl (HttpStatus (status res) []), finally_reset w1)
             else
               (case json res of
                  None \<Rightarrow> Some (Inl InvalidJson, finally_reset w1)
                | Some j \<Rightarrow>
                    if \<not> j_status j \<or> j_token j = []
                    then Some (Inl (if j_message j \<noteq> [] then ServerMessage (j_message j)
                                    else NoToken), finally_reset w1)
                    else Some (Inr (j_token j), finally_reset (w1\<lparr>token := j_token j\<rparr>))))"
  using assms
  by (subst getToken.simps)
     (simp add: fetch_def emit_def Let_def finally_reset_def split: net_result.splits option.splits)

lemma authorizedFetch_no_retry:
  "authorizedFetch env input ini False w =
     (let w1 = emit (Fetch (the_request input ini (token w))) (w\<lparr>tick := tick w + 1\<rparr>)
      in case net env (tick w) of
           NetError \<Rightarrow> Some (Inl NetworkFailure, w1)
         | Response res \<Rightarrow> Some (Inr res, w1))"
  by (subst authorizedFetch.simps) (simp add: fetch_def Let_def split: net_result.splits)

lemma authorizedFetch_other_status:
  assumes "net env (tick w) = Response res" "status res \<noteq> 401"
  shows "authorizedFetch env input ini retry w =
     Some (Inr res, emit (Fetch (the_request input ini (token w))) (w\<lparr>tick := tick w + 1\<rparr>))"
  using assms by (subst authorizedFetch.simps) (simp add: fetch_def Let_def)

lemma authorizedFetch_refreshed:
  assumes "\<not> isFetchingToken w" "net env (tick w) = Response res" "status res = 401"
    and "net env (tick w + 1) = Response tres" "ok tres" "json tres = Some j"
    and "j_status j" "j_token j \<noteq> []" "net env (tick w + 2) = Response res2"
  shows "authorizedFetch env input ini True w =
     Some (Inr res2, w\<lparr>token := j_token j, isFetchingToken := False, tick := tick w + 3,
       trace := trace w @ [Fetch (the_request input ini (token w)), Fetch (token_request w),
         Fetch (the_request input ini (j_token j))]\<rparr>)"
  using assms
  by (subst authorizedFetch.simps)
     (simp add: fetch_def Let_def getToken_idle authorizedFetch_no_retry finally_reset_def emit_def)

subsection \<open>Classification of paths\<close>

lemma prefix_map_iff:
  "prefix l (map f s) \<longleftrightarrow> length l \<le> length s \<and> map f (take (length l) s) = l"
proof
  assume "prefix l (map f s)"
  then obtain r where r: "map f s = l @ r"
    by (auto simp: prefix_def)
  have len: "length l \<le> length s"
    using arg_cong [OF r, of length] by simp
  have "take (length l) (map f s) = l"
    using r by simp
  then show "length l \<le> length s \<and> map f (take (length l) s) = l"
    using len by (simp add: take_map)
next
  assume a: "length l \<le> length s \<and> map f (take (length l) s) = l"
  have "map f s = map f (take (length l) s) @ map f (drop (length l) s)"
    by (metis append_take_drop_id map_append)
  then show "prefix l (map f s)"
    using a by (metis prefixI)
qed

lemma prefix_append_drop:
  "prefix (a @ b) s \<longleftrightarrow> prefix a s \<and> prefix b (drop (length a) s)"
  by (auto simp: prefix_def)

lemma is_http_iff:
  "rx_match [Lit ''HTTP'', Opt ''S'', Lit ''://''] (map canonicalize p) \<noteq> None
   \<longleftrightarrow> starts_with_ci ''http://'' p \<or> starts_with_ci ''https://'' p"
proof -
  let ?c = "map canonicalize p"
  have a: "starts_with_ci ''http://'' p \<longleftrightarrow> prefix (''HTTP'' @ ''://'') ?c"
    unfolding starts_with_ci_def prefix_map_iff by (simp add: canonicalize_def)
  have b: "starts_with_ci ''https://'' p \<longleftrightarrow> prefix (''HTTP'' @ ''S'' @ ''://'') ?c"
    unfolding starts_with_ci_def prefix_map_iff by (simp add: canonicalize_def)
  show ?thesis
    unfolding a b prefix_append_drop
    by (auto simp: drop_map split: option.splits)
qed

text \<open>
  C9, as stated, fails at the empty path: it starts with none of the excluded prefixes, and
  the guard of \<^verbatim>\<open>isLocalPath\<close> classifies it as not local.
\<close>

theorem C9_empty_path_counterexample:
  "\<not> (isLocalPath [] \<longleftrightarrow> spec_local [])"
  by (simp add: isLocalPath_def spec_local_def starts_with_ci_def)

text \<open>
  C9, amended: a path is classified local if and only if it is not empty, does not start with
  http:// or https:// (in any letter case), does not start with // and does not start with
  data: (in this letter case).
\<close>

theorem C9_isLocalPath_iff:
  "isLocalPath p \<longleftrightarrow> p \<noteq> [] \<and> spec_local p"
proof (cases "p = []")
  case True
  then show ?thesis by (simp add: isLocalPath_def)
next
  case False
  have "isLocalPath p \<longleftrightarrow>
      \<not> (rx_match [Lit ''HTTP'', Opt ''S'', Lit ''://''] (map canonicalize p) \<noteq> None)
      \<and> \<not> prefix ''//'' p \<and> \<not> prefix ''data:'' p"
    using False by (simp add: isLocalPath_def Let_def)
  then show ?thesis
    unfolding is_http_iff using False by (auto simp: spec_local_def)
qed


subsection \<open>Authorized requests\<close>

text \<open>
  C4: a request sent by \<^verbatim>\<open>authorizedFetch\<close> with the retry allowed carries the bearer token
  when the client has one. A response with a status other than 401 is returned after this one
  request. On a 401 the token is acquired once, the request is sent once more, now with the
  new token and with the retry disabled, and whatever comes back is returned, a second 401
  included: no further request is sent, and a caller such as \<^verbatim>\<open>deleteImageByKey\<close> reports it
  as the failure \<^verbatim>\<open>HTTP 401\<close>.
\<close>

theorem C4_authorized_request:
  assumes idle: "\<not> isFetchingToken w"
    and first: "net env (tick w) = Response res"
  shows "(token w \<noteq> [] \<longrightarrow>
            map_of (r_headers (the_request input ini (token w))) ''Authorization''
              = Some (''Bearer '' @ token w))
       \<and> (status res \<noteq> 401 \<longrightarrow>
            authorizedFetch env input ini True w =
              Some (Inr res, w\<lparr>tick := tick w + 1,
                      trace := trace w @ [Fetch (the_request input ini (token w))]\<rparr>))
       \<and> (status res = 401 \<and> net env (tick w + 1) = Response tres \<and> ok tres \<and> json tres = Some j
            \<and> j_status j \<and> j_token j \<noteq> [] \<and> net env (tick w + 2) = Response res2 \<longrightarrow>
            authorizedFetch env input ini True w =
              Some (Inr res2, w\<lparr>token := j_token j, isFetchingToken := False, tick := tick w + 3,
                      trace := trace w @ [Fetch (the_request input ini (token w)),
                        Fetch (token_request w), Fetch (the_request input ini (j_token j))]\<rparr>)
            \<and> (status res2 = 401 \<longrightarrow>
                 (\<exists>w'. deleteImageByKey env k w = Some (Inl (HttpStatus 401 []), w')
                       \<and> tick w' = tick w + 3)))"
proof (intro conjI impI)
  assume "token w \<noteq> []"
  then show "map_of (r_headers (the_request input ini (token w))) ''Authorization''
      = Some (''Bearer '' @ token w)"
    by (simp add: the_request_def request_headers_def Let_def update_conv')
next
  assume "status res \<noteq> 401"
  then show "authorizedFetch env input ini True w =
      Some (Inr res, w\<lparr>tick := tick w + 1,
              trace := trace w @ [Fetch (the_request input ini (token w))]\<rparr>)"
    using first by (simp add: authorizedFetch_other_status emit_def)
next
  assume a: "status res = 401 \<and> net env (tick w + 1) = Response tres \<and> ok tres \<and> json tres = Some j
      \<and> j_status j \<and> j_token j \<noteq> [] \<and> net env (tick w + 2) = Response res2"
  then show "authorizedFetch env input ini True w =
      Some (Inr res2, w\<lparr>token := j_token j, isFetchingToken := False, tick := tick w + 3,
              trace := trace w @ [Fetch (the_request input ini (token w)),
                Fetch (token_request w), Fetch (the_request input ini (j_token j))]\<rparr>)"
    using idle first by (simp add: authorizedFetch_refreshed)
  assume "status res2 = 401"
  then show "\<exists>w'. deleteImageByKey env k w = Some (Inl (HttpStatus 401 []), w')
      \<and> tick w' = tick w + 3"
    using a idle first by (simp add: deleteImageByKey_def authorizedFetch_refreshed ok_def)
qed

theorem C4_witness:
  "authorizedFetch (env0\<lparr>net := expired_net\<rparr>) ''http://h/api/images?page=1'' no_init True world0 =
     Some (Inr unauthorized,
       world0\<lparr>token := ''new'', isFetchingToken := False, tick := 3,
         trace := [Fetch (the_request ''http://h/api/images?page=1'' no_init ''old''),
           Fetch (token_request world0),
           Fetch (the_request ''http://h/api/images?page=1'' no_init ''new'')]\<rparr>)
   \<and> map_of (r_headers (the_request ''http://h/api/images?page=1'' no_init ''old'')) ''Authorization''
       = Some ''Bearer old''"
  using C4_authorized_request [of world0 "env0\<lparr>net := expired_net\<rparr>" unauthorized
      "''http://h/api/images?page=1''" no_init
      "\<lparr>status = 200, json = Some (empty_payload\<lparr>j_token := ''new''\<rparr>), body_text = None\<rparr>"
      "empty_payload\<lparr>j_token := ''new''\<rparr>" unauthorized "''k''"]
  by (simp add: world0_def env0_def expired_net_def reply_def unauthorized_def empty_payload_def
      ok_def)

subsection \<open>Listing the inventory\<close>

lemma page_url_frame [simp]:
  "page_url (w\<lparr>tick := n\<rparr>) p = page_url w p"
  "page_url (w\<lparr>trace := es\<rparr>) p = page_url w p"
  "page_url (emit e w) p = page_url w p"
  by (simp_all add: page_url_def)

lemma page_events_frame [simp]:
  "page_events (w\<lparr>tick := n\<rparr>) p k = page_events w p k"
  "page_events (w\<lparr>trace := es\<rparr>) p k = page_events w p k"
  by (simp_all add: page_events_def)

lemma page_events_Suc:
  "page_events w page (Suc n) =
     [Fetch (the_request (page_url w page) no_init (token w)), Sleep 80] @ page_events w (page + 1) n"
proof -
  have "[0..<Suc n] = 0 # map Suc [0..<n]"
    by (simp add: upt_conv_Cons map_Suc_upt del: upt_Suc)
  then show ?thesis
    by (simp add: page_events_def comp_def add.assoc del: upt_Suc)
qed

lemma listPages_pages:
  assumes "js \<noteq> []"
    and "\<forall>i<length js. \<exists>res. net env (tick w + i) = Response res \<and> ok res \<and> json res = Some (js ! i)"
    and "\<forall>i<length js. (page + int i < j_last_page (js ! i)) = (i + 1 < length js)"
    and "0 < page"
  shows "listPages env page result w =
     Some (Inr (result @ concat (map j_items js)),
       w\<lparr>tick := tick w + length js, trace := trace w @ page_events w page (length js)\<rparr>)"
  using assms
proof (induction js arbitrary: page result w)
  case Nil
  then show ?case by simp
next
  case (Cons j js)
  from Cons.prems(2) obtain res where
    res: "net env (tick w) = Response res" "ok res" "json res = Some j"
    by fastforce
  have not401: "status res \<noteq> 401"
    using res(2) by (simp add: ok_def)
  let ?w1 = "w\<lparr>tick := Suc (tick w),
    trace := trace w @ [Fetch (the_request (page_url w page) no_init (token w)), Sleep 80]\<rparr>"
  show ?case
  proof (cases "js = []")
    case True
    have stop: "\<not> page < j_last_page j"
      using Cons.prems(3) True by auto
    show ?thesis
      using res not401 stop True Cons.prems(4)
      by (subst listPages.simps)
         (simp add: authorizedFetch_other_status Let_def page_events_Suc page_events_def emit_def)
  next
    case False
    have more: "page < j_last_page j"
      using Cons.prems(3) False by (auto simp: less_Suc_eq_0_disj)
    have prem2: "\<forall>i<length js. \<exists>res. net env (tick ?w1 + i) = Response res \<and> ok res
        \<and> json res = Some (js ! i)"
    proof (intro allI impI)
      fix i assume "i < length js"
      then have "Suc i < length (j # js)" by simp
      from Cons.prems(2) [rule_format, OF this]
      show "\<exists>res. net env (tick ?w1 + i) = Response res \<and> ok res \<and> json res = Some (js ! i)"
        by simp
    qed
    have prem3: "\<forall>i<length js. (page + 1 + int i < j_last_page (js ! i)) = (i + 1 < length js)"
    proof (intro allI impI)
      fix i assume "i < length js"
      then have "Suc i < length (j # js)" by simp
      from Cons.prems(3) [rule_format, OF this]
      show "(page + 1 + int i < j_last_page (js ! i)) = (i + 1 < length js)"
        by (simp add: algebra_simps)
    qed
    have IH: "listPages env (page + 1) (result @ j_items j) ?w1 =
       Some (Inr ((result @ j_items j) @ concat (map j_items js)),
         ?w1\<lparr>tick := tick ?w1 + length js,
           trace := trace ?w1 @ page_events ?w1 (page + 1) (length js)\<rparr>)"
      using Cons.IH [OF False prem2 prem3] Cons.prems(4) by simp
    show ?thesis
      using res not401 more Cons.prems(4)
      by (subst listPages.simps)
         (simp add: authorizedFetch_other_status Let_def emit_def IH page_events_Suc)
  qed
qed

text \<open>
  C8: when the server answers the page requests with well-formed pages \<open>js\<close>, each but the
  last one reporting a last page beyond its own number, \<^verbatim>\<open>listAllImages\<close> requests the pages
  1, 2, ... in this order, one request for each page of \<open>js\<close>, pauses 80 ms after each
  request, stops after the page that reports no later page, and returns the items of the
  pages concatenated in page order.
\<close>

theorem C8_listAllImages:
  assumes "js \<noteq> []"
    and "\<forall>i<length js. \<exists>res. net env (tick w + i) = Response res \<and> ok res \<and> json res = Some (js ! i)"
    and "\<forall>i<length js. (int (i + 1) < j_last_page (js ! i)) = (i + 1 < length js)"
  shows "listAllImages env w =
     Some (Inr (concat (map j_items js)),
       w\<lparr>tick := tick w + length js, trace := trace w @ page_events w 1 (length js)\<rparr>)"
  using listPages_pages [of js env w 1 "[]"] assms
  by (simp add: listAllImages_def add.commute)

theorem C8_witness:
  "listAllImages (env0\<lparr>net := paged_net\<rparr>) world0 =
     Some (Inr [image_A, image_B, image_C],
       world0\<lparr>tick := 2, trace :=
         [Fetch (the_request ''http://h/api/images?page=1'' no_init ''old''), Sleep 80,
          Fetch (the_request ''http://h/api/images?page=2'' no_init ''old''), Sleep 80]\<rparr>)"
proof -
  have a: "\<forall>i<length two_pages. \<exists>res. net (env0\<lparr>net := paged_net\<rparr>) (tick world0 + i) = Response res
      \<and> ok res \<and> json res = Some (two_pages ! i)"
    by (simp add: two_pages_def paged_net_def reply_def ok_def world0_def)
  have b: "\<forall>i<length two_pages.
      (int (i + 1) < j_last_page (two_pages ! i)) = (i + 1 < length two_pages)"
    by (auto simp: two_pages_def less_Suc_eq empty_payload_def)
  have c: "two_pages \<noteq> []"
    by (simp add: two_pages_def)
  have d: "page_events world0 1 2 =
      [Fetch (the_request ''http://h/api/images?page=1'' no_init ''old''), Sleep 80,
       Fetch (the_request ''http://h/api/images?page=2'' no_init ''old''), Sleep 80]"
    by (simp add: page_events_def page_url_def baseUrl_def world0_def number_to_string_def
        decimal.simps digit_def upt_rec numeral_2_eq_2 suffix_to_prefix)
  have e: "length two_pages = 2" "tick world0 = 0" "trace world0 = []"
    "concat (map j_items two_pages) = [image_A, image_B, image_C]"
    by (simp_all add: two_pages_def world0_def)
  show ?thesis
    using C8_listAllImages [OF c a b] by (simp add: d e)
qed

subsection \<open>An address of the server that does not parse\<close>

text \<open>
  C10: \<^verbatim>\<open>getServerOrigin\<close> returns the protocol, two slashes and the host when the address
  parses, and null when the parser throws; it never throws itself. When it returns null,
  \<^verbatim>\<open>cleanupUnusedImages\<close>, \<^verbatim>\<open>downloadImagesForCurrentNote\<close> and
  \<^verbatim>\<open>downloadImagesForAllNotes\<close> return at once: they show one notice, send no request and
  leave the documents and files as they are.
\<close>

theorem C10_invalid_server_url:
  "(case parseUrl env server of
      Some u \<Rightarrow> getServerOrigin env server = Some (protocol u @ ''//'' @ host u)
    | None \<Rightarrow> getServerOrigin env server = None)
   \<and> (getServerOrigin env server = None \<longrightarrow>
        cleanupUnusedImages env server w
          = Some (Inr (), w\<lparr>trace := trace w @ [Notice InvalidServerUrl]\<rparr>)
        \<and> downloadImagesForCurrentNote env server w
          = w\<lparr>trace := trace w @ [Notice InvalidServerUrl]\<rparr>
        \<and> downloadImagesForAllNotes env server w
          = w\<lparr>trace := trace w @ [Notice InvalidServerUrl]\<rparr>)"
  by (simp add: getServerOrigin_def cleanupUnusedImages_def downloadImagesForCurrentNote_def
      downloadImagesForAllNotes_def emit_def split: option.splits)

theorem C10_witness:
  "getServerOrigin env0 ''lsky.example.com'' = None
   \<and> cleanupUnusedImages env0 ''lsky.example.com'' world0
       = Some (Inr (), world0\<lparr>trace := [Notice InvalidServerUrl]\<rparr>)
   \<and> downloadImagesForCurrentNote env0 ''lsky.example.com'' world0
       = world0\<lparr>trace := [Notice InvalidServerUrl]\<rparr>
   \<and> downloadImagesForAllNotes env0 ''lsky.example.com'' world0
       = world0\<lparr>trace := [Notice InvalidServerUrl]\<rparr>"
  using C10_invalid_server_url [of env0 "''lsky.example.com''" world0]
  by (simp add: env0_def world0_def)

subsection \<open>Reconciliation\<close>

lemma deletions_emit [simp]:
  "deletions (emit e w) = (if is_deletion e then deletions w @ [e] else deletions w)"
  by (simp add: deletions_def)

lemma deletions_frame [simp]:
  "deletions (w\<lparr>tick := n\<rparr>) = deletions w"
  "deletions (w\<lparr>isFetchingToken := b\<rparr>) = deletions w"
  "deletions (w\<lparr>token := t\<rparr>) = deletions w"
  by (simp_all add: deletions_def)

lemma is_deletion_simps [simp]:
  "is_deletion (Sleep n) = False"
  "is_deletion (Notice x) = False"
  "is_deletion (Confirm xs k) = False"
  "is_deletion (Fetch rq) = (r_method rq = ''DELETE'')"
  by (simp_all add: is_deletion_def)

lemma token_request_method [simp]: "r_method (token_request w) = ''POST''"
  by (simp add: token_request_def)

lemma the_request_method [simp]:
  "r_method (the_request input ini tok) = (case i_method ini of Some m \<Rightarrow> m | None \<Rightarrow> ''GET'')"
  by (simp add: the_request_def)

lemma getToken_no_deletion_aux:
  assumes "getToken env w = Some y"
  shows "deletions (snd y) = deletions w"
proof (induction rule: getToken.raw_induct [OF _ assms])
  case (1 rec env w y)
  show ?case
  proof (cases "isFetchingToken w")
    case True
    with 1(2) have "rec env (emit (Sleep 200) w) = Some y" by simp
    from 1(1) [OF this] show ?thesis by simp
  next
    case False
    with 1(2) show ?thesis
      by (auto simp: fetch_def Let_def finally_reset_def
          split: net_result.splits if_splits option.splits)
  qed
qed

lemma getToken_no_deletion:
  assumes "getToken env w = Some (r, w')"
  shows "deletions w' = deletions w"
  using getToken_no_deletion_aux [OF assms] by simp

lemma authorizedFetch_no_deletion:
  assumes "authorizedFetch env input ini retry w = Some (r, w')" "i_method ini \<noteq> Some ''DELETE''"
  shows "deletions w' = deletions w"
proof -
  have m: "(case i_method ini of Some m \<Rightarrow> m | None \<Rightarrow> ''GET'') \<noteq> ''DELETE''"
    using assms(2) by (auto split: option.splits)
  show ?thesis
  proof (cases "net env (tick w)")
    case NetError
    then show ?thesis
      using assms(1) m by (subst (asm) authorizedFetch.simps) (auto simp: fetch_def)
  next
    case (Response res)
    show ?thesis
    proof (cases "status res = 401 \<and> retry")
      case False
      then show ?thesis
        using assms(1) m Response by (subst (asm) authorizedFetch.simps) (auto simp: fetch_def)
    next
      case True
      let ?w1 = "emit (Fetch (the_request input ini (token w))) (w\<lparr>tick := tick w + 1\<rparr>)"
      from assms(1) True Response have
        a: "(case getToken env ?w1 of None \<Rightarrow> None | Some (Inl e, w) \<Rightarrow> Some (Inl e, w)
             | Some (Inr t, w) \<Rightarrow> authorizedFetch env input ini False w) = Some (r, w')"
        by (subst (asm) authorizedFetch.simps) (simp add: fetch_def)
      then obtain r1 w2 where g: "getToken env ?w1 = Some (r1, w2)"
        by (cases "getToken env ?w1") auto
      have d2: "deletions w2 = deletions w"
        using getToken_no_deletion [OF g] m by simp
      show ?thesis
      proof (cases r1)
        case (Inl e)
        with a g d2 show ?thesis by simp
      next
        case (Inr t)
        with a g have "authorizedFetch env input ini False w2 = Some (r, w')" by simp
        then show ?thesis
          using d2 m by (auto simp: authorizedFetch_no_retry Let_def split: net_result.splits)
      qed
    qed
  qed
qed

lemma listPages_no_deletion_aux:
  assumes "listPages env page result w = Some y"
  shows "deletions (snd y) = deletions w"
proof (induction rule: listPages.raw_induct [OF _ assms])
  case (1 rec env page result w y)
  from 1(2) obtain r1 w1 where
    f: "authorizedFetch env (page_url w page) no_init True w = Some (r1, w1)"
    by (cases "authorizedFetch env (page_url w page) no_init True w") auto
  have d1: "deletions w1 = deletions w"
    using authorizedFetch_no_deletion [OF f] by (simp add: no_init_def)
  show ?case
  proof (cases r1)
    case (Inl e)
    with 1(2) f d1 show ?thesis by auto
  next
    case (Inr res)
    show ?thesis
    proof (cases "json res")
      case None
      with 1(2) f Inr d1 show ?thesis
        by (auto split: if_splits)
    next
      case (Some j)
      show ?thesis
      proof (cases "ok res \<and> page + 1 \<le> (if j_last_page j \<noteq> 0 then j_last_page j else page)")
        case True
        with 1(2) f Inr Some have
          "rec env (page + 1) (result @ j_items j) (emit (Sleep 80) w1) = Some y"
          by (simp add: Let_def)
        from 1(1) [OF this] d1 show ?thesis by simp
      next
        case False
        with 1(2) f Inr Some d1 show ?thesis
          by (auto simp: Let_def split: if_splits)
      qed
    qed
  qed
qed

lemma listAllImages_no_deletion:
  assumes "listAllImages env w = Some (r, w')"
  shows "deletions w' = deletions w"
  using listPages_no_deletion_aux [of env 1 "[]" w "(r, w')"] assms
  by (simp add: listAllImages_def)


text \<open>
  C3: with the used addresses collected from the documents and the inventory \<open>all\<close> that
  the listing returned, the orphans are exactly the items of the inventory whose address is
  not among the used ones. When there is none, \<^verbatim>\<open>cleanupUnusedImages\<close> reports that there
  is nothing to clean and returns; when the user declines, it returns after the dialog. In
  both cases no deletion request has been sent. When the user confirms, the deletion loop
  runs over exactly the orphans.
\<close>

theorem C3_cleanup:
  assumes origin: "getServerOrigin env server = Some origin"
    and listing: "listAllImages env (emit (Notice ScanStarted) w) = Some (Inr all, w1)"
  shows "(let used = collectUsedImageUrls w origin;
              orphans = filter (\<lambda>img. img_url img \<notin> set used) all
          in (orphans = [] \<longrightarrow>
                cleanupUnusedImages env server w = Some (Inr (), emit (Notice NothingToClean) w1)
                \<and> deletions (emit (Notice NothingToClean) w1) = deletions w)
           \<and> (orphans \<noteq> [] \<and> \<not> confirm env orphans (length all) \<longrightarrow>
                cleanupUnusedImages env server w
                  = Some (Inr (), emit (Notice Cancelled) (emit (Confirm orphans (length all)) w1))
                \<and> deletions (emit (Notice Cancelled) (emit (Confirm orphans (length all)) w1))
                  = deletions w)
           \<and> (orphans \<noteq> [] \<and> confirm env orphans (length all) \<longrightarrow>
                cleanupUnusedImages env server w
                  = (case delete_loop env orphans ([], [],
                            emit (ProgressTotal (length orphans)) (emit (ProgressOpen CleanupTitle)
                              (emit (Confirm orphans (length all)) w1))) of
                       None \<Rightarrow> None
                     | Some (success, failed, w2) \<Rightarrow>
                         Some (Inr (), emit (ShowResult success failed) (emit ProgressClose w2)))))"
proof -
  have d: "deletions w1 = deletions w"
    using listAllImages_no_deletion [OF listing] by simp
  have u: "collectUsedImageUrls (emit (Notice ScanStarted) w) origin = collectUsedImageUrls w origin"
    by (simp add: collectUsedImageUrls_def getMarkdownFiles_def)
  show ?thesis
    using origin listing d
    by (auto simp: cleanupUnusedImages_def Let_def u confirmCleanup_def split: option.splits)
qed

theorem C3_witness:
  "cleanupUnusedImages env_abc ''http://h/api/'' world_abc =
     Some (Inr (), world_abc\<lparr>tick := 1, trace :=
       [Notice ScanStarted, Fetch (the_request ''http://h/api/images?page=1'' no_init ''old''),
        Sleep 80, Confirm [image_A, image_C] 3, Notice Cancelled]\<rparr>)"
proof -
  have o: "getServerOrigin env_abc ''http://h/api/'' = Some ''http://h''"
    by (simp add: getServerOrigin_def env_abc_def)
  let ?w1 = "world_abc\<lparr>tick := 1, trace :=
       [Notice ScanStarted, Fetch (the_request ''http://h/api/images?page=1'' no_init ''old''),
        Sleep 80]\<rparr>"
  have l: "listAllImages env_abc (emit (Notice ScanStarted) world_abc)
      = Some (Inr [image_A, image_B, image_C], ?w1)"
    by (subst listAllImages_def, subst listPages.simps)
       (simp add: authorizedFetch_other_status env_abc_def reply_def ok_def world_abc_def world0_def
         empty_payload_def page_url_def baseUrl_def suffix_to_prefix number_to_string_def
         decimal.simps digit_def emit_def Let_def)
  have u: "collectUsedImageUrls world_abc ''http://h'' = [''http://h/B.png'']"
    by (simp add: collectUsedImageUrls_def getMarkdownFiles_def world_abc_def world0_def note_md_def
        remote_matches_def mdRemoteRegex_def htmlRemoteRegex_def wikiRemoteRegex_def add_remote_def
        syntaxRegex_def replace_all_def set_add_def plus_greedy_def dot_def is_line_terminator_def
        is_space_def dq_def Let_def)
  have c: "\<And>xs n. \<not> confirm env_abc xs n"
    by (simp add: env_abc_def env0_def)
  show ?thesis
    using C3_cleanup [OF o l]
    by (simp add: u c Let_def image_A_def image_B_def image_C_def emit_def numeral_3_eq_3)
qed

subsection \<open>Uploading the local images of the active note\<close>

text \<open>
  C7 fails where a reference whose image cannot be found stands before one that is uploaded,
  on the same line. In the note \<^verbatim>\<open>![b](b.png) ![a](a.png)\<close>, with \<^verbatim>\<open>b.png\<close> missing from
  the store, both references are tried in turn, the first is reported as failed, the second
  is uploaded, and the note is written once. The text that is written is
  \<^verbatim>\<open>![](http://h/i/0)\<close>: the pattern of \<^verbatim>\<open>replaceImageLink\<close> for the markdown form starts at
  the \<^verbatim>\<open>![\<close> of the failed reference, and its \<^verbatim>\<open>.*?\<close> runs up to \<^verbatim>\<open>](a.png)\<close>, so the
  rewrite for \<^verbatim>\<open>a.png\<close> takes the failed reference with it. The text with exactly the
  rewrite of the upload that succeeded is \<^verbatim>\<open>![b](b.png) ![](http://h/i/0)\<close>.
\<close>

theorem C7_failed_reference_deleted:
  "extractLocalImagePaths one_line = [''b.png'', ''a.png'']
   \<and> map_option (\<lambda>w'. (contents w' ''notes/n.md'', trace w')) (uploadAllLocalImages env_up world_line)
     = Some (''![](http://h/i/0)'',
         [Notice (FoundLocalImages 2), ProgressOpen UploadTitle, ProgressTotal 2,
          Notice (UploadFailedFor ''b.png'' (NotFound ''notes/b.png'')),
          ProgressIncrement FailedLabel,
          Fetch \<lparr>r_url = ''http://h/api/upload'', r_method = ''POST'',
            r_headers = [(''Accept'', ''application/json''), (''Authorization'', ''Bearer old'')],
            r_body = FormData ''binary'' ''n-0.png'' (MimeString ''image/png'') ''1''\<rparr>,
          Notice (UploadSucceeded 1 2 ''a.png''), ProgressIncrement (Label ''a.png''),
          ProgressClose, Modify ''notes/n.md'' ''![](http://h/i/0)'',
          Notice (UploadFinished 1 2)])
   \<and> replaceImageLink one_line ''a.png'' ''http://h/i/0'' \<noteq> ''![b](b.png) ![](http://h/i/0)''"
  by code_simp

subsection \<open>Candidate paths and the search for the stored file\<close>

lemma push_alternatives_append:
  "push_alternatives doc acc v = acc @ candidates doc v"
  by (auto simp: push_alternatives_def candidates_def Let_def split: option.splits
      dest: prefix_imp_sublist)

lemma foldl_push_alternatives:
  "foldl (push_alternatives doc) acc vs = acc @ concat (map (candidates doc) vs)"
  by (induction vs arbitrary: acc) (simp_all add: push_alternatives_append)

lemma first_existing_None:
  "first_existing lookup alts = None \<longleftrightarrow> (\<forall>alt\<in>set alts. lookup alt = None)"
  by (auto simp: first_existing_def find_None_iff split: option.splits dest: find_Some_iff [THEN iffD1])

lemma first_existing_in:
  "first_existing lookup alts = Some x \<Longrightarrow> \<exists>alt\<in>set alts. lookup alt = Some x"
  by (auto simp: first_existing_def find_Some_iff split: option.splits)

text \<open>
  C6, as stated, fails for a path that contains \<^verbatim>\<open>attachments/\<close> after its start: the
  program removes this first occurrence and tries the result, which is not among the
  candidates that the claim lists.
\<close>

theorem C6_counterexample:
  "''x/a.png'' \<in> set (getAlternativePaths Some ''x/attachments/a.png'' note_md)
   \<and> ''x/a.png'' \<notin> set (concat (map (claimed_candidates note_md)
        (variants_of Some (clean_path ''x/attachments/a.png''))))"
  by code_simp

text \<open>
  C6, amended: the candidates are generated for the normalised path and for its decoded form
  when that differs, in this order for each: the primary resolution; the path with the first
  occurrence of \<^verbatim>\<open>attachments/\<close> removed, if it contains one; the path itself; the path
  with \<^verbatim>\<open>attachments/\<close> in front, if it does not start with it; the path in the folder of
  the document, if that folder has a non-empty path; the path with \<^verbatim>\<open>Attachments/\<close> in
  front; the last segment in the folder named after the document, if the segment is not empty.
  Empty candidates and repetitions are dropped. When none of the paths that are looked up is
  a folder, the search ends with a file or with NotFound for the primary path, and with
  NotFound exactly when the primary path, every candidate and the search by name all fail.
\<close>

theorem C6_candidates:
  "getAlternativePaths dec p doc =
     dedup (filter (\<lambda>s. s \<noteq> []) (concat (map (candidates doc) (variants_of dec (clean_path p)))))
   \<and> (let decoded = decoded_path dec p;
           primary = resolveImagePath decoded doc;
           alts = getAlternativePaths dec decoded doc
       in lookup primary \<noteq> Some FolderNode \<and> (\<forall>alt\<in>set alts. lookup alt \<noteq> Some FolderNode) \<longrightarrow>
          ((\<exists>f. locateImage dec lookup fs p doc = Inr f)
             \<or> locateImage dec lookup fs p doc = Inl (NotFound primary))
          \<and> (locateImage dec lookup fs p doc = Inl (NotFound primary) \<longleftrightarrow>
               lookup primary = None \<and> (\<forall>alt\<in>set alts. lookup alt = None)
               \<and> findFileByBasename dec fs (search_name decoded) = None))"
proof
  show "getAlternativePaths dec p doc =
     dedup (filter (\<lambda>s. s \<noteq> []) (concat (map (candidates doc) (variants_of dec (clean_path p)))))"
    by (simp add: getAlternativePaths_def foldl_push_alternatives)
next
  let ?decoded = "decoded_path dec p"
  let ?primary = "resolveImagePath ?decoded doc"
  let ?alts = "getAlternativePaths dec ?decoded doc"
  have "((\<exists>f. locateImage dec lookup fs p doc = Inr f)
             \<or> locateImage dec lookup fs p doc = Inl (NotFound ?primary))
          \<and> (locateImage dec lookup fs p doc = Inl (NotFound ?primary) \<longleftrightarrow>
               lookup ?primary = None \<and> (\<forall>alt\<in>set ?alts. lookup alt = None)
               \<and> findFileByBasename dec fs (search_name ?decoded) = None)"
    if nf: "lookup ?primary \<noteq> Some FolderNode" "\<forall>alt\<in>set ?alts. lookup alt \<noteq> Some FolderNode"
  proof (cases "lookup ?primary")
    case (Some n)
    with nf(1) obtain f where "n = FileNode f" by (cases n) auto
    with Some show ?thesis
      by (simp add: locateImage_def decoded_path_def Let_def)
  next
    case None
    show ?thesis
    proof (cases "first_existing lookup ?alts")
      case (Some n)
      from first_existing_in [OF Some] nf(2) obtain f where f: "n = FileNode f"
        by (cases n) auto
      from Some have "\<not> (\<forall>alt\<in>set ?alts. lookup alt = None)"
        using first_existing_None [of lookup ?alts] by simp
      with None Some f show ?thesis
        by (simp add: locateImage_def decoded_path_def Let_def)
    next
      case n2: None
      then have "\<forall>alt\<in>set ?alts. lookup alt = None"
        by (simp add: first_existing_None)
      with None n2 show ?thesis
        by (cases "findFileByBasename dec fs (search_name ?decoded)")
           (simp_all add: locateImage_def decoded_path_def search_name_def Let_def)
    qed
  qed
  then show "let decoded = decoded_path dec p;
           primary = resolveImagePath decoded doc;
           alts = getAlternativePaths dec decoded doc
       in lookup primary \<noteq> Some FolderNode \<and> (\<forall>alt\<in>set alts. lookup alt \<noteq> Some FolderNode) \<longrightarrow>
          ((\<exists>f. locateImage dec lookup fs p doc = Inr f)
             \<or> locateImage dec lookup fs p doc = Inl (NotFound primary))
          \<and> (locateImage dec lookup fs p doc = Inl (NotFound primary) \<longleftrightarrow>
               lookup primary = None \<and> (\<forall>alt\<in>set alts. lookup alt = None)
               \<and> findFileByBasename dec fs (search_name decoded) = None)"
    unfolding Let_def by blast
qed


theorem C6_witness:
  "getAlternativePaths Some ''./a.png'' note_md =
     [''notes/a.png'', ''a.png'', ''attachments/a.png'', ''Attachments/a.png'', ''notes/n/a.png'']
   \<and> locateImage Some (\<lambda>q. None) [] ''./a.png'' note_md = Inl (NotFound ''notes/a.png'')"
proof -
  have ev: "dedup (filter (\<lambda>s. s \<noteq> [])
      (concat (map (candidates note_md) (variants_of Some (clean_path ''./a.png''))))) =
      [''notes/a.png'', ''a.png'', ''attachments/a.png'', ''Attachments/a.png'', ''notes/n/a.png'']"
    by code_simp
  have p: "resolveImagePath (decoded_path Some ''./a.png'') note_md = ''notes/a.png''"
    by code_simp
  have h: "findFileByBasename Some [] (search_name (decoded_path Some ''./a.png'')) = None"
    by (simp add: findFileByBasename_def)
  show ?thesis
    using C6_candidates [of Some "''./a.png''" note_md "\<lambda>q. None" "[]"]
    by (simp add: ev p h Let_def)
qed

subsection \<open>Concurrent acquisition of the token\<close>

lemma filter_update_length:
  assumes "i < length xs"
  shows "length (filter P (xs[i := y])) + (if P (xs ! i) then 1 else 0)
       = length (filter P xs) + (if P y then 1 else 0)"
  using assms
proof (induction xs arbitrary: i)
  case Nil
  then show ?case by simp
next
  case (Cons x xs)
  then show ?case
    by (cases i) auto
qed

lemma single_flight_start: "single_flight (start n tok)"
  by (simp add: single_flight_def start_def in_flight_def awaiting_def issued_def)

lemma single_flight_resume:
  assumes "single_flight c"
  shows "single_flight (resume a c)"
proof (cases a)
  case (Pair i answer)
  show ?thesis
  proof (cases "i < length (c_calls c)")
    case False
    then show ?thesis
      using assms Pair by (simp add: resume_def)
  next
    case True
    note fa = filter_update_length [OF True, of awaiting]
    note fi = filter_update_length [OF True, of issued]
    show ?thesis
    proof (cases "c_calls c ! i")
      case Entering
      then show ?thesis
        using assms Pair True fa [of Polling] fi [of Polling] fa [of AwaitingResponse]
          fi [of AwaitingResponse]
        by (simp add: resume_def enter_def single_flight_def in_flight_def awaiting_def issued_def)
    next
      case Polling
      then show ?thesis
        using assms Pair True fa [of Polling] fi [of Polling] fa [of AwaitingResponse]
          fi [of AwaitingResponse]
        by (simp add: resume_def enter_def single_flight_def in_flight_def awaiting_def issued_def)
    next
      case AwaitingResponse
      then show ?thesis
        using assms Pair True fa [of "Settled r" for r] fi [of "Settled r" for r]
          fa [of "AwaitingJson r" for r] fi [of "AwaitingJson r" for r]
        by (auto simp: resume_def settle_def single_flight_def in_flight_def awaiting_def issued_def
            split: net_result.splits if_splits)
    next
      case (AwaitingJson res)
      then show ?thesis
        using assms Pair True fa [of "Settled r" for r] fi [of "Settled r" for r]
        by (auto simp: resume_def settle_def single_flight_def in_flight_def awaiting_def issued_def
            split: option.splits if_splits)
    next
      case (Settled r)
      then show ?thesis
        using assms Pair True by (simp add: resume_def)
    qed
  qed
qed

lemma single_flight_run: "single_flight c \<Longrightarrow> single_flight (run schedule c)"
  unfolding run_def
  by (induction schedule arbitrary: c) (simp_all add: single_flight_resume)

lemma length_calls_resume [simp]: "length (c_calls (resume a c)) = length (c_calls c)"
  by (cases a)
     (auto simp: resume_def enter_def settle_def split: call.splits net_result.splits option.splits)

lemma length_calls_run [simp]: "length (c_calls (run schedule c)) = length (c_calls c)"
  unfolding run_def
  by (induction schedule arbitrary: c) simp_all

text \<open>
  C1, as stated, fails: the second call finds the flag set and waits, and once the first call
  has settled it calls \<^verbatim>\<open>getToken\<close> again, which sends a second authentication request
  instead of sharing the first outcome.
\<close>

theorem C1_two_requests_counterexample:
  "c_calls (run (take 2 one_after_the_other) (start 2 ''old'')) = [AwaitingResponse, Polling]
   \<and> c_requests (run (take 2 one_after_the_other) (start 2 ''old'')) = 1
   \<and> c_calls (run one_after_the_other (start 2 ''old'')) = [Settled (Inr ''t1''), Settled (Inr ''t2'')]
   \<and> c_requests (run one_after_the_other (start 2 ''old'')) = 2"
  by (simp add: one_after_the_other_def run_def start_def resume_def enter_def settle_def
      token_reply_def reply_def empty_payload_def ok_def numeral_2_eq_2)

text \<open>
  C1, amended: under every interleaving of the calls, at most one authentication request is
  in flight at any time; a call that finds an acquisition in flight waits and calls
  \<^verbatim>\<open>getToken\<close> again, so every call that has passed the flag has sent its own request, and
  \<open>n\<close> calls that have all settled have sent \<open>n\<close> requests, one after the other.
\<close>

theorem C1_single_flight:
  "(let c = run schedule (start n tok)
    in in_flight c \<le> 1
       \<and> c_requests c = length (filter issued (c_calls c))
       \<and> (list_all settled (c_calls c) \<longrightarrow> c_requests c = n))"
proof -
  let ?c = "run schedule (start n tok)"
  have sf: "single_flight ?c"
    by (simp add: single_flight_run single_flight_start)
  have len: "length (c_calls ?c) = n"
    by (simp add: start_def)
  have "filter issued (c_calls ?c) = c_calls ?c" if "list_all settled (c_calls ?c)"
    using that by (auto simp: list_all_iff filter_id_conv settled_def issued_def split: call.splits)
  then show ?thesis
    using sf len by (auto simp: single_flight_def Let_def)
qed

theorem C1_witness:
  "in_flight (run one_after_the_other (start 2 ''old'')) \<le> 1
   \<and> list_all settled (c_calls (run one_after_the_other (start 2 ''old'')))
   \<and> c_requests (run one_after_the_other (start 2 ''old'')) = 2"
proof -
  have "c_calls (run one_after_the_other (start 2 ''old'')) = [Settled (Inr ''t1''), Settled (Inr ''t2'')]"
    by (simp add: one_after_the_other_def run_def start_def resume_def enter_def settle_def
      token_reply_def reply_def empty_payload_def ok_def numeral_2_eq_2)
  then have "list_all settled (c_calls (run one_after_the_other (start 2 ''old'')))"
    by (simp add: settled_def)
  then show ?thesis
    using C1_single_flight [of one_after_the_other 2 "''old''"] by (simp add: Let_def)
qed

subsection \<open>Matching and replacing\<close>

lemma star_lazy_Some:
  "star_lazy P k s = Some (x, r) \<Longrightarrow> \<exists>rest. s = x @ rest \<and> k rest = Some r"
proof (induction s arbitrary: x)
  case Nil
  then show ?case by auto
next
  case (Cons c cs)
  show ?case
  proof (cases "k (c # cs)")
    case (Some r')
    with Cons.prems show ?thesis by auto
  next
    case None
    with Cons.prems obtain x' where "P c" "star_lazy P k cs = Some (x', r)" "x = c # x'"
      by (auto split: if_splits)
    with Cons.IH [of x'] show ?thesis by auto
  qed
qed

lemma star_greedy_Some:
  "star_greedy P k s = Some (x, r) \<Longrightarrow> \<exists>rest. s = x @ rest \<and> k rest = Some r"
proof (induction s arbitrary: x r)
  case Nil
  then show ?case by auto
next
  case (Cons c cs)
  show ?case
  proof (cases "if P c then star_greedy P k cs else None")
    case None
    with Cons.prems show ?thesis by auto
  next
    case (Some y)
    obtain x' r' where y: "y = (x', r')" by (cases y)
    with Some have "star_greedy P k cs = Some (x', r')"
      by (auto split: if_splits)
    from Cons.IH [OF this] Cons.prems Some y show ?thesis by auto
  qed
qed

lemma plus_greedy_Some:
  "plus_greedy P k s = Some (x, r) \<Longrightarrow> \<exists>rest. s = x @ rest \<and> k rest = Some r"
  by (cases s) (auto simp: plus_greedy_def split: if_splits dest!: star_greedy_Some)

lemma substitute_plain:
  "CHR ''$'' \<notin> set repl \<Longrightarrow> substitute repl m b a = repl"
  by (induction repl m b a rule: substitute.induct) auto

lemma rx_replace_hit:
  assumes "rx_first r (m @ rest) = Some ps" "concat ps = m" "m \<noteq> []"
  shows "rx_replace r repl bef (m @ rest)
     = substitute repl m bef rest @ rx_replace r repl (bef @ m) rest"
proof -
  from assms(3) obtain c m' where m: "m = c # m'" by (cases m) auto
  show ?thesis
    using assms(1,2) unfolding m by (simp add: Let_def)
qed

lemma star_lazy_here: "k v = Some r \<Longrightarrow> star_lazy P k v = Some ([], r)"
  by (cases v) simp_all

lemma star_lazy_skip:
  assumes "list_all P u" "\<And>j. j < length u \<Longrightarrow> k (drop j (u @ v)) = None"
  shows "star_lazy P k (u @ v) = map_option (\<lambda>(x, r). (u @ x, r)) (star_lazy P k v)"
  using assms
proof (induction u)
  case Nil
  show ?case by (simp add: option.map_ident split_def)
next
  case (Cons c u)
  from Cons.prems(2) [of 0] have here: "k (c # u @ v) = None" by simp
  have "\<And>j. j < length u \<Longrightarrow> k (drop j (u @ v)) = None"
    using Cons.prems(2) [of "Suc j" for j] by simp
  from Cons.IH [OF _ this] Cons.prems(1) here show ?case
    by (simp add: option.map_comp comp_def split_def)
qed

lemma star_greedy_None: "star_greedy P k s = None \<Longrightarrow> k s = None"
  by (cases s) (auto split: option.splits if_splits)

lemma star_greedy_first:
  assumes "k s = Some r" "\<And>j. 0 < j \<Longrightarrow> j \<le> length s \<Longrightarrow> k (drop j s) = None"
  shows "star_greedy P k s = Some ([], r)"
proof (cases "star_greedy P k s")
  case None
  from star_greedy_None [OF this] assms(1) show ?thesis by simp
next
  case (Some y)
  obtain x r' where y: "y = (x, r')" by (cases y)
  from star_greedy_Some [OF Some [unfolded y]] obtain rest where
    rest: "s = x @ rest" "k rest = Some r'"
    by blast
  have "x = []"
  proof (rule ccontr)
    assume "x \<noteq> []"
    then have "0 < length x" "length x \<le> length s" "drop (length x) s = rest"
      using rest(1) by simp_all
    with assms(2) [of "length x"] rest(2) show False by simp
  qed
  with rest assms(1) Some y show ?thesis by simp
qed

lemma star_greedy_prepend:
  assumes "list_all P u" "star_greedy P k v = Some (x, r)"
  shows "star_greedy P k (u @ v) = Some (u @ x, r)"
  using assms by (induction u) simp_all

lemma plus_greedy_prepend:
  assumes "list_all P u" "u \<noteq> []" "star_greedy P k v = Some (x, r)"
  shows "plus_greedy P k (u @ v) = Some (u @ x, r)"
proof -
  from assms(2) obtain c u' where u: "u = c # u'" by (cases u) auto
  with assms(1) have "P c" "list_all P u'" by simp_all
  with star_greedy_prepend [OF this(2) assms(3)] show ?thesis
    by (simp add: plus_greedy_def u)
qed

lemma md_pattern_match:
  assumes "list_all dot alt" "CHR '']'' \<notin> set alt"
  shows "rx_match [Lit ''!['', StarL dot, Lit ('']('' @ p @ '')'')]
           (''!['' @ alt @ '']('' @ p @ '')'' @ rest)
         = Some [''!['', alt, '']('' @ p @ '')'']"
proof -
  let ?L = "'']('' @ p @ '')''"
  let ?k = "rx_match [Lit ?L]"
  have here: "?k (?L @ rest) = Some [?L]"
    by simp
  have skip: "?k (drop j (alt @ ?L @ rest)) = None" if "j < length alt" for j
  proof -
    from that have "drop j (alt @ ?L @ rest) = alt ! j # drop (Suc j) alt @ ?L @ rest"
      by (simp add: Cons_nth_drop_Suc)
    moreover from that assms(2) have "alt ! j \<noteq> CHR '']''"
      by (metis nth_mem)
    ultimately show ?thesis by simp
  qed
  have "star_lazy dot ?k (alt @ ?L @ rest) = Some (alt, [?L])"
    using star_lazy_skip [of dot alt ?k "?L @ rest", OF assms(1) skip]
      star_lazy_here [of ?k "?L @ rest" "[?L]" dot, OF here]
    by simp
  then show ?thesis by simp
qed

subsection \<open>Extracting the references of a note\<close>

text \<open>What a repetition consumes satisfies its character class.\<close>

lemma star_lazy_all:
  "star_lazy P k s = Some (x, r) \<Longrightarrow> list_all P x"
proof (induction s arbitrary: x)
  case Nil
  then show ?case by auto
next
  case (Cons c cs)
  show ?case
  proof (cases "k (c # cs)")
    case (Some r')
    with Cons.prems show ?thesis by auto
  next
    case None
    with Cons.prems obtain x' where "P c" "star_lazy P k cs = Some (x', r)" "x = c # x'"
      by (auto split: if_splits)
    with Cons.IH [of x'] show ?thesis by auto
  qed
qed

lemma star_greedy_all:
  "star_greedy P k s = Some (x, r) \<Longrightarrow> list_all P x"
proof (induction s arbitrary: x r)
  case Nil
  then show ?case by auto
next
  case (Cons c cs)
  show ?case
  proof (cases "if P c then star_greedy P k cs else None")
    case None
    with Cons.prems show ?thesis by auto
  next
    case (Some y)
    obtain x' r' where y: "y = (x', r')" by (cases y)
    with Some have "star_greedy P k cs = Some (x', r')" "P c"
      by (auto split: if_splits)
    from Cons.IH [OF this(1)] this(2) Cons.prems Some y show ?thesis by auto
  qed
qed

lemma plus_greedy_all:
  "plus_greedy P k s = Some (x, r) \<Longrightarrow> list_all P x \<and> x \<noteq> []"
  by (cases s) (auto simp: plus_greedy_def split: if_splits dest!: star_greedy_all)

lemma star_greedy_within:
  assumes "k s = Some r"
    and "\<And>j. 0 < j \<Longrightarrow> j \<le> length (takeWhile P s) \<Longrightarrow> k (drop j s) = None"
  shows "star_greedy P k s = Some ([], r)"
proof (cases "star_greedy P k s")
  case None
  from star_greedy_None [OF this] assms(1) show ?thesis by simp
next
  case (Some y)
  obtain x r' where y: "y = (x, r')" by (cases y)
  from star_greedy_Some [OF Some [unfolded y]] obtain rest where
    rest: "s = x @ rest" "k rest = Some r'"
    by blast
  from star_greedy_all [OF Some [unfolded y]] have allx: "list_all P x" .
  have "x = []"
  proof (rule ccontr)
    assume "x \<noteq> []"
    have "length x \<le> length (takeWhile P s)"
      unfolding rest(1) using allx
      by (simp add: takeWhile_append2 list_all_iff)
    with \<open>x \<noteq> []\<close> assms(2) [of "length x"] rest show False by simp
  qed
  with rest assms(1) Some y show ?thesis by simp
qed

text \<open>Scanning over a stretch with no match, and over a match.\<close>

lemma rx_match_Lit_start:
  "rx_match (Lit (c # l) # as) s = Some ps \<Longrightarrow> \<exists>t. s = c # t"
  by (cases s) (auto split: if_splits)

lemma rx_scan_skip:
  assumes "\<And>j. j < length u \<Longrightarrow> rx_first r (drop j (u @ v)) = None"
  shows "rx_scan r (u @ v) = rx_scan r v"
  using assms
proof (induction u)
  case Nil
  show ?case by simp
next
  case (Cons c u)
  from Cons.prems [of 0] have "rx_first r (c # u @ v) = None" by simp
  moreover have "\<And>j. j < length u \<Longrightarrow> rx_first r (drop j (u @ v)) = None"
    using Cons.prems [of "Suc j" for j] by simp
  ultimately show ?case
    using Cons.IH by simp
qed

lemma rx_scan_hit:
  assumes "rx_first r (m @ v) = Some ps" "concat ps = m" "m \<noteq> []"
  shows "rx_scan r (m @ v) = ps # rx_scan r v"
proof -
  from assms(3) obtain c m' where m: "m = c # m'" by (cases m) auto
  show ?thesis
    using assms(1,2) unfolding m by simp
qed

lemma rx_scan_miss:
  assumes "rx_first r (c # u @ v) = None"
    and "\<And>j. j < length u \<Longrightarrow> rx_first r (drop j (u @ v)) = None"
  shows "rx_scan r (c # u @ v) = rx_scan r v"
  using assms rx_scan_skip [of u r v] by simp

lemma render_Nil [simp]: "render [] = []"
  by (simp add: render_def)

lemma render_Cons [simp]: "render (x # d) = render_piece x @ render d"
  by (simp add: render_def)

lemma well_formed_Nil [simp]: "well_formed []"
  by (simp add: well_formed_def)

lemma well_formed_Cons [simp]: "well_formed (x # d) = (well_formed_piece x \<and> well_formed d)"
  by (simp add: well_formed_def)

lemma plain_simps [simp]:
  "\<not> plain CHR ''!''" "\<not> plain CHR ''<''" "\<not> plain CHR ''>''" "\<not> plain CHR ''(''"
  "\<not> plain CHR '')''" "\<not> plain CHR ''[''" "\<not> plain CHR '']''" "\<not> plain dq"
  by (simp_all add: plain_def)

lemma plain_not:
  assumes "list_all plain p" "\<not> plain c"
  shows "c \<notin> set p"
  using assms by (auto simp: list_all_iff)

lemma star_lazy_stuck:
  assumes "\<not> list_all P u" "\<And>j. j < length u \<Longrightarrow> k (drop j (u @ v)) = None"
  shows "star_lazy P k (u @ v) = None"
  using assms
proof (induction u)
  case Nil
  then show ?case by simp
next
  case (Cons c u)
  from Cons.prems(2) [of 0] have here: "k (c # u @ v) = None" by simp
  show ?case
  proof (cases "P c")
    case False
    with here show ?thesis by simp
  next
    case True
    with Cons.prems(1) have "\<not> list_all P u" by simp
    moreover have "\<And>j. j < length u \<Longrightarrow> k (drop j (u @ v)) = None"
      using Cons.prems(2) [of "Suc j" for j] by simp
    ultimately have "star_lazy P k (u @ v) = None" by (rule Cons.IH)
    with here True show ?thesis by simp
  qed
qed

lemma no_link_start:
  assumes "CHR ''('' \<notin> set u" "v = [] \<or> hd v \<noteq> CHR ''(''" "j < length u"
  shows "\<not> prefix '']('' (drop j (u @ v))"
proof -
  from assms(3) have d: "drop j (u @ v) = u ! j # drop (Suc j) u @ v"
    by (simp add: Cons_nth_drop_Suc)
  show ?thesis
  proof (cases "drop (Suc j) u")
    case Nil
    with d assms(2) show ?thesis by (cases v) auto
  next
    case (Cons a w)
    then have "a \<in> set u"
      by (metis in_set_dropD list.set_intros(1))
    with assms(1) have "a \<noteq> CHR ''(''" by auto
    with d Cons show ?thesis by simp
  qed
qed

lemma md_rest_start:
  "rx_match (Lit '']('' # as) s = Some r \<Longrightarrow> prefix '']('' s"
  by (simp split: if_splits)

lemma md_rest_none:
  assumes "CHR ''('' \<notin> set u" "v = [] \<or> hd v \<noteq> CHR ''(''" "j < length u"
  shows "rx_match (Lit '']('' # as) (drop j (u @ v)) = None"
  using no_link_start [OF assms] by simp

lemma md_rest_here:
  assumes "list_all plain p" "p \<noteq> []"
  shows "rx_match [Lit '']('', PlusG (\<lambda>c. c \<noteq> CHR '')''), Lit '')''] ('']('' @ p @ '')'' @ b)
    = Some ['']('', p, '')'']"
proof -
  let ?P = "\<lambda>c. c \<noteq> CHR '')''"
  let ?k = "rx_match [Lit '')'']"
  have "star_greedy ?P ?k ('')'' @ b) = Some ([], ['')''])"
    by simp
  moreover have "list_all ?P p"
    using assms(1) by (auto simp: list_all_iff)
  ultimately have "plus_greedy ?P ?k (p @ '')'' @ b) = Some (p @ [], ['')''])"
    using assms(2) by (intro plus_greedy_prepend)
  then show ?thesis by simp
qed

lemma render_hd:
  "well_formed d \<Longrightarrow> render d = [] \<or> hd (render d) \<noteq> CHR ''(''"
proof (induction d)
  case Nil
  show ?case by simp
next
  case (Cons x d)
  then show ?case
  proof (cases x)
    case (Text t)
    with Cons show ?thesis
      by (cases t) auto
  qed auto
qed

lemma no_paren_piece:
  assumes "well_formed_piece x" "\<And>alt p. x \<noteq> Md alt p"
  shows "CHR ''('' \<notin> set (render_piece x)"
  using assms
  by (cases x) (auto simp: well_formed_path_def dq_def dest: plain_not [where c = "CHR ''(''"])

lemma lazy_reach:
  assumes "well_formed d"
    and "\<And>alt p b. Md alt p \<in> set d \<Longrightarrow>
      rx_match (Lit '']('' # as) ('']('' @ p @ '')'' @ b) = Some (g p)"
  shows "star_lazy dot (rx_match (Lit '']('' # as)) (render d)
    = map_option (\<lambda>(x, p, d'). (x, g p)) (reach d)"
  using assms
proof (induction d)
  case Nil
  show ?case by simp
next
  case (Cons x d)
  let ?k = "rx_match (Lit '']('' # as)"
  from Cons.prems have wfx: "well_formed_piece x" and wfd: "well_formed d" by simp_all
  have H: "?k ('']('' @ p @ '')'' @ b) = Some (g p)" if "Md alt p \<in> set (x # d)" for alt p b
    using that by (rule Cons.prems(2))
  have IH: "star_lazy dot ?k (render d) = map_option (\<lambda>(x, p, d'). (x, g p)) (reach d)"
  proof (rule Cons.IH [OF wfd])
    fix alt p b
    assume "Md alt p \<in> set d"
    then have "Md alt p \<in> set (x # d)" by simp
    then show "?k ('']('' @ p @ '')'' @ b) = Some (g p)" by (rule H)
  qed
  show ?case
  proof (cases "\<exists>alt p. x = Md alt p")
    case True
    then obtain alt p where x: "x = Md alt p" by blast
    with wfx have alt: "list_all plain alt" "list_all dot alt"
      by simp_all
    let ?u = "''!['' @ alt"
    let ?v = "'']('' @ p @ '')'' @ render d"
    have "CHR ''('' \<notin> set ?u"
      using plain_not [OF alt(1), of "CHR ''(''"] by simp
    then have none: "\<And>j. j < length ?u \<Longrightarrow> ?k (drop j (?u @ ?v)) = None"
      by (intro md_rest_none) simp_all
    have dotu: "list_all dot ?u"
      using alt(2) by (simp add: dot_def is_line_terminator_def)
    have "star_lazy dot ?k (?u @ ?v) = map_option (\<lambda>(x, r). (?u @ x, r)) (star_lazy dot ?k ?v)"
      by (rule star_lazy_skip [of dot ?u ?k ?v, OF dotu none])
    also have "star_lazy dot ?k ?v = Some ([], g p)"
      by (rule star_lazy_here) (rule H [of alt], simp add: x)
    finally show ?thesis
      by (simp add: x del: rx_match.simps)
  next
    case False
    let ?u = "render_piece x"
    have nop: "CHR ''('' \<notin> set ?u"
      using no_paren_piece [OF wfx] False by blast
    have none: "\<And>j. j < length ?u \<Longrightarrow> ?k (drop j (?u @ render d)) = None"
      using nop render_hd [OF wfd] by (intro md_rest_none)
    have r: "reach (x # d) = (if list_all dot ?u
        then map_option (\<lambda>(sk, p, d'). (?u @ sk, p, d')) (reach d) else None)"
      using False by (cases x) simp_all
    show ?thesis
    proof (cases "list_all dot ?u")
      case True
      have "star_lazy dot ?k (?u @ render d)
          = map_option (\<lambda>(x, r). (?u @ x, r)) (star_lazy dot ?k (render d))"
        by (rule star_lazy_skip [of dot ?u ?k "render d", OF True none])
      with IH True r show ?thesis
        by (cases "reach d") (auto simp del: rx_match.simps)
    next
      case F: False
      have "star_lazy dot ?k (?u @ render d) = None"
        by (rule star_lazy_stuck [of dot ?u ?k "render d", OF F none])
      with F r show ?thesis by (simp del: rx_match.simps)
    qed
  qed
qed

lemma reach_render:
  assumes "reach d = Some (x, p, d')" "well_formed d"
  shows "render d = x @ '']('' @ p @ '')'' @ render d' \<and> md_paths d = p # md_paths d'
    \<and> length d' < length d \<and> well_formed d' \<and> set d' \<subseteq> set d \<and> (\<exists>alt. Md alt p \<in> set d)
    \<and> CHR ''('' \<notin> set x \<and> list_all dot x"
  using assms
proof (induction d arbitrary: x)
  case Nil
  then show ?case by simp
next
  case (Cons y d)
  from Cons.prems(2) have wfy: "well_formed_piece y" and wfd: "well_formed d" by simp_all
  show ?case
  proof (cases "\<exists>alt q. y = Md alt q")
    case True
    then obtain alt q where y: "y = Md alt q" by blast
    with wfy have "CHR ''('' \<notin> set alt" "list_all dot alt"
      using plain_not [of alt "CHR ''(''"] by simp_all
    moreover have "dot CHR ''!''" "dot CHR ''[''"
      by (simp_all add: dot_def is_line_terminator_def)
    ultimately show ?thesis
      using Cons.prems y by auto
  next
    case False
    then have r: "reach (y # d) = (if list_all dot (render_piece y)
        then map_option (\<lambda>(sk, p, d'). (render_piece y @ sk, p, d')) (reach d) else None)"
      by (cases y) simp_all
    with Cons.prems obtain sk where sk: "reach d = Some (sk, p, d')" "x = render_piece y @ sk"
      and doty: "list_all dot (render_piece y)"
      by (auto split: if_splits)
    have nop: "CHR ''('' \<notin> set (render_piece y)"
      using no_paren_piece [OF wfy] False by blast
    from Cons.IH [OF sk(1) wfd] sk(2) False doty nop show ?thesis
      by (cases y) auto
  qed
qed

lemma first_single: "rx_first [a] s = rx_match a s"
  by (cases "rx_match a s") simp_all

lemma md_unfold:
  "rx_match (Lit ''!['' # StarL dot # Lit '']('' # as) (''!['' @ s)
     = map_option (\<lambda>(x, r). ''!['' # x # r) (star_lazy dot (rx_match (Lit '']('' # as)) s)"
  by (cases "star_lazy dot (rx_match (Lit '']('' # as)) s") auto

lemma md_at_md:
  assumes "CHR ''('' \<notin> set alt" "list_all dot alt"
    and "rx_match (Lit '']('' # as) v = Some r"
  shows "rx_match (Lit ''!['' # StarL dot # Lit '']('' # as) (''!['' @ alt @ v) = Some (''!['' # alt # r)"
proof -
  let ?k = "rx_match (Lit '']('' # as)"
  from md_rest_start [OF assms(3)] have "v = [] \<or> hd v \<noteq> CHR ''(''"
    by (cases v) auto
  with assms(1) have none: "\<And>j. j < length alt \<Longrightarrow> ?k (drop j (alt @ v)) = None"
    by (intro md_rest_none)
  have "star_lazy dot ?k (alt @ v) = map_option (\<lambda>(x, r). (alt @ x, r)) (star_lazy dot ?k v)"
    by (rule star_lazy_skip [of dot alt ?k v, OF assms(2) none])
  also have "star_lazy dot ?k v = Some ([], r)"
    by (rule star_lazy_here) (rule assms(3))
  finally have "star_lazy dot ?k (alt @ v) = Some (alt, r)"
    by (simp del: rx_match.simps)
  then show ?thesis
    unfolding md_unfold by (simp del: rx_match.simps)
qed

lemma md_at_wiki:
  assumes "well_formed_path q" "well_formed d"
    and "\<And>alt p b. Md alt p \<in> set d \<Longrightarrow>
      rx_match (Lit '']('' # as) ('']('' @ p @ '')'' @ b) = Some (g p)"
  shows "rx_match (Lit ''!['' # StarL dot # Lit '']('' # as) (render_piece (Wiki q) @ render d)
    = (if list_all dot q
       then map_option (\<lambda>(x, p, d'). ''!['' # (''['' @ q @ '']]'' @ x) # g p) (reach d)
       else None)"
proof -
  let ?k = "rx_match (Lit '']('' # as)"
  let ?u = "''['' @ q @ '']]''"
  from assms(1) have q: "list_all plain q" by (simp add: well_formed_path_def)
  have "CHR ''('' \<notin> set ?u"
    using plain_not [OF q, of "CHR ''(''"] by simp
  then have none: "\<And>j. j < length ?u \<Longrightarrow> ?k (drop j (?u @ render d)) = None"
    using render_hd [OF assms(2)] by (intro md_rest_none)
  have start: "rx_match (Lit ''!['' # StarL dot # Lit '']('' # as) (render_piece (Wiki q) @ render d)
      = map_option (\<lambda>(x, r). ''!['' # x # r) (star_lazy dot ?k (?u @ render d))"
  proof -
    have "render_piece (Wiki q) @ render d = ''!['' @ (?u @ render d)" by simp
    then show ?thesis
      unfolding md_unfold [symmetric] by (simp only:)
  qed
  show ?thesis
  proof (cases "list_all dot q")
    case True
    then have dotu: "list_all dot ?u"
      by (simp add: dot_def is_line_terminator_def)
    have "star_lazy dot ?k (?u @ render d)
        = map_option (\<lambda>(x, r). (?u @ x, r)) (star_lazy dot ?k (render d))"
      by (rule star_lazy_skip [of dot ?u ?k "render d", OF dotu none])
    with lazy_reach [of d as g, OF assms(2,3)] True show ?thesis
      unfolding start by (cases "reach d") (auto simp del: rx_match.simps)
  next
    case False
    then have "\<not> list_all dot ?u" by simp
    from star_lazy_stuck [of dot ?u ?k "render d", OF this none] False show ?thesis
      unfolding start by (simp del: rx_match.simps)
  qed
qed

lemma md_needs_bang:
  assumes "c \<noteq> CHR ''!''"
  shows "rx_first [Lit ''!['' # as] (c # s) = None"
  using assms by simp

lemma scan_skip_char:
  assumes "\<And>c s. c \<noteq> a \<Longrightarrow> rx_first r (c # s) = None" "a \<notin> set u"
  shows "rx_scan r (u @ v) = rx_scan r v"
proof (rule rx_scan_skip)
  fix j
  assume j: "j < length u"
  then have d: "drop j (u @ v) = u ! j # drop (Suc j) u @ v"
    by (simp add: Cons_nth_drop_Suc)
  from j assms(2) have "u ! j \<noteq> a"
    by (metis nth_mem)
  then show "rx_first r (drop j (u @ v)) = None"
    unfolding d by (rule assms(1))
qed

lemma md_scan:
  assumes "well_formed d"
    and "\<And>alt p b. Md alt p \<in> set d \<Longrightarrow>
      rx_match (Lit '']('' # as) ('']('' @ p @ '')'' @ b) = Some (g p)"
    and "\<And>alt p. Md alt p \<in> set d \<Longrightarrow> concat (g p) = '']('' @ p @ '')''"
  shows "list_all2 (\<lambda>ps p. \<exists>u. ps = ''!['' # u # g p \<and> CHR ''('' \<notin> set u \<and> list_all dot u)
    (rx_scan [Lit ''!['' # StarL dot # Lit '']('' # as] (render d)) (md_paths d)"
  using assms
proof (induction d rule: length_induct)
  case (1 d)
  let ?R = "Lit ''!['' # StarL dot # Lit '']('' # as"
  let ?Q = "\<lambda>ps p. \<exists>u. ps = ''!['' # u # g p \<and> CHR ''('' \<notin> set u \<and> list_all dot u"
  note H = "1.prems"(2) and G = "1.prems"(3)
  have IH: "list_all2 ?Q (rx_scan [?R] (render e)) (md_paths e)"
    if "length e < length d" "well_formed e" "set e \<subseteq> set d" for e
  proof -
    have "rx_match (Lit '']('' # as) ('']('' @ p @ '')'' @ b) = Some (g p)" if "Md alt p \<in> set e" for alt p b
      using that \<open>set e \<subseteq> set d\<close> by (intro H [of alt]) auto
    moreover have "concat (g p) = '']('' @ p @ '')''" if "Md alt p \<in> set e" for alt p
      using that \<open>set e \<subseteq> set d\<close> by (intro G [of alt]) auto
    ultimately show ?thesis
      using "1.IH" [rule_format, of e] that(1,2) by blast
  qed
  note skip = scan_skip_char [of "CHR ''!''" "[?R]", OF md_needs_bang]
  show ?case
  proof (cases d)
    case Nil
    then show ?thesis by simp
  next
    case (Cons x d')
    with "1.prems" have wfx: "well_formed_piece x" and wfd: "well_formed d'" by simp_all
    have rest: "list_all2 ?Q (rx_scan [?R] (render d')) (md_paths d')"
      using wfd Cons by (intro IH) auto
    show ?thesis
    proof (cases x)
      case (Text t)
      with wfx have "CHR ''!'' \<notin> set t"
        using plain_not [of t "CHR ''!''"] by simp
      from skip [OF _ this] rest show ?thesis
        by (simp add: Cons Text del: rx_match.simps)
    next
      case (Html pre p post)
      with wfx have "CHR ''!'' \<notin> set (render_piece x)"
        using plain_not [of _ "CHR ''!''"] by (auto simp: well_formed_path_def dq_def)
      from skip [OF _ this] rest show ?thesis
        by (simp add: Cons Html del: render_piece.simps rx_match.simps)
    next
      case (Md alt p)
      with wfx have alt: "list_all plain alt" "list_all dot alt" by simp_all
      have nop: "CHR ''('' \<notin> set alt"
        using plain_not [OF alt(1), of "CHR ''(''"] by simp
      have mem: "Md alt p \<in> set d" by (simp add: Cons Md)
      let ?ps = "''!['' # alt # g p"
      have "rx_scan [?R] (concat ?ps @ render d') = ?ps # rx_scan [?R] (render d')"
      proof (rule rx_scan_hit)
        have "rx_match ?R (''!['' @ alt @ '']('' @ p @ '')'' @ render d') = Some ?ps"
          by (rule md_at_md [OF nop alt(2) H [OF mem]])
        then show "rx_first [?R] (concat ?ps @ render d') = Some ?ps"
          unfolding first_single by (simp add: G [OF mem] del: rx_match.simps)
      qed simp_all
      moreover have "render d = concat ?ps @ render d'"
        by (simp add: Cons Md G [OF mem])
      moreover have "?Q ?ps p"
        using alt nop by simp
      ultimately show ?thesis
        using rest by (simp add: Cons Md del: rx_match.simps)
    next
      case (Wiki q)
      with wfx have q: "well_formed_path q" by simp
      have tail: "CHR ''!'' \<notin> set (''[['' @ q @ '']]'')"
        using q plain_not [of q "CHR ''!''"] by (simp add: well_formed_path_def)
      have shape: "render d = CHR ''!'' # (''[['' @ q @ '']]'') @ render d'"
        by (simp add: Cons Wiki)
      have H': "rx_match (Lit '']('' # as) ('']('' @ p @ '')'' @ b) = Some (g p)" if "Md alt p \<in> set d'" for alt p b
        using that by (intro H [of alt]) (simp add: Cons)
      note m = md_at_wiki [of q d' as g, OF q wfd H']
      show ?thesis
      proof (cases "list_all dot q \<and> reach d' \<noteq> None")
        case False
        with m have "rx_first [?R] (CHR ''!'' # (''[['' @ q @ '']]'') @ render d') = None"
          unfolding first_single by (cases "reach d'") (auto split: if_splits simp del: rx_match.simps)
        then have "rx_scan [?R] (render d) = rx_scan [?R] ((''[['' @ q @ '']]'') @ render d')"
          unfolding shape by (simp del: rx_match.simps)
        also have "\<dots> = rx_scan [?R] (render d')"
          by (rule skip [OF _ tail])
        finally show ?thesis
          using rest by (simp add: Cons Wiki del: rx_match.simps)
      next
        case True
        then obtain sk p d'' where r: "reach d' = Some (sk, p, d'')" and dotq: "list_all dot q"
          by auto
        from reach_render [OF r wfd] obtain alt where
          rd: "render d' = sk @ '']('' @ p @ '')'' @ render d''"
          and paths: "md_paths d' = p # md_paths d''"
          and len: "length d'' < length d'" and well_formed'': "well_formed d''"
          and sub: "set d'' \<subseteq> set d'" and mem: "Md alt p \<in> set d'"
          and sk: "CHR ''('' \<notin> set sk" "list_all dot sk"
          by blast
        from mem have mem': "Md alt p \<in> set d" by (simp add: Cons)
        let ?u = "''['' @ q @ '']]'' @ sk"
        let ?ps = "''!['' # ?u # g p"
        have "rx_match ?R (render_piece (Wiki q) @ render d') = Some ?ps"
          using m dotq r by (simp del: rx_match.simps render_piece.simps)
        then have hit: "rx_first [?R] (render_piece (Wiki q) @ render d') = Some ?ps"
          by (simp only: first_single)
        have rd': "render d = concat ?ps @ render d''"
          by (simp add: Cons Wiki rd G [OF mem'])
        have "rx_scan [?R] (concat ?ps @ render d'') = ?ps # rx_scan [?R] (render d'')"
        proof (rule rx_scan_hit)
          show "rx_first [?R] (concat ?ps @ render d'') = Some ?ps"
            using hit by (simp add: rd G [OF mem'] del: rx_match.simps)
        qed simp_all
        moreover have "list_all2 ?Q (rx_scan [?R] (render d'')) (md_paths d'')"
          using len well_formed'' sub Cons by (intro IH) auto
        moreover have "?Q ?ps p"
          using sk dotq q plain_not [of q "CHR ''(''"]
          by (simp add: well_formed_path_def dot_def is_line_terminator_def)
        ultimately show ?thesis
          unfolding rd' using paths by (simp add: Cons Wiki del: rx_match.simps)
      qed
    qed
  qed
qed

lemma rx_match_sound:
  "rx_match atoms s = Some ps \<Longrightarrow> list_all2 fits atoms ps \<and> prefix (concat ps) s"
proof (induction atoms arbitrary: s ps)
  case Nil
  then show ?case by simp
next
  case (Cons a as)
  show ?case
  proof (cases a)
    case (Lit l)
    with Cons.prems obtain ps' where p: "prefix l s" "rx_match as (drop (length l) s) = Some ps'"
      "ps = l # ps'"
      by (auto split: if_splits)
    from p(1) obtain t where t: "s = l @ t" by (auto simp: prefix_def)
    from Cons.IH [OF p(2)] show ?thesis
      by (simp add: Lit p(3) t)
  next
    case (Opt l)
    with Cons.prems consider ps' where "prefix l s" "rx_match as (drop (length l) s) = Some ps'" "ps = l # ps'"
      | ps' where "rx_match as s = Some ps'" "ps = [] # ps'"
      by (auto split: option.splits if_splits)
    then show ?thesis
    proof cases
      case 1
      from 1(1) obtain t where t: "s = l @ t" by (auto simp: prefix_def)
      from Cons.IH [OF 1(2)] show ?thesis
        by (simp add: Opt 1(3) t)
    next
      case 2
      from Cons.IH [OF 2(1)] show ?thesis
        by (simp add: Opt 2(2))
    qed
  next
    case (StarL P)
    with Cons.prems obtain x r where m: "star_lazy P (rx_match as) s = Some (x, r)" "ps = x # r"
      by auto
    from star_lazy_Some [OF m(1)] obtain rest where rest: "s = x @ rest" "rx_match as rest = Some r"
      by blast
    from Cons.IH [OF rest(2)] star_lazy_all [OF m(1)] show ?thesis
      by (simp add: StarL m(2) rest(1))
  next
    case (StarG P)
    with Cons.prems obtain x r where m: "star_greedy P (rx_match as) s = Some (x, r)" "ps = x # r"
      by auto
    from star_greedy_Some [OF m(1)] obtain rest where rest: "s = x @ rest" "rx_match as rest = Some r"
      by blast
    from Cons.IH [OF rest(2)] star_greedy_all [OF m(1)] show ?thesis
      by (simp add: StarG m(2) rest(1))
  next
    case (PlusG P)
    with Cons.prems obtain x r where m: "plus_greedy P (rx_match as) s = Some (x, r)" "ps = x # r"
      by auto
    from plus_greedy_Some [OF m(1)] obtain rest where rest: "s = x @ rest" "rx_match as rest = Some r"
      by blast
    from Cons.IH [OF rest(2)] plus_greedy_all [OF m(1)] show ?thesis
      by (simp add: PlusG m(2) rest(1))
  qed
qed

text \<open>Wiki embeds.\<close>

lemma wiki_needs_bang:
  assumes "c \<noteq> CHR ''!''"
  shows "rx_first [Lit ''![['' # as] (c # s) = None"
  using assms by simp

lemma wiki_at_md:
  assumes "list_all plain alt" "t = [] \<or> hd t \<noteq> CHR ''[''"
  shows "rx_first [Lit ''![['' # as] (''!['' @ alt @ t) = None"
proof (cases alt)
  case Nil
  with assms(2) show ?thesis
    by (cases t) auto
next
  case (Cons a alt')
  with assms(1) have "a \<noteq> CHR ''[''" by auto
  with Cons show ?thesis
    by simp
qed

lemma wiki_scan:
  assumes "well_formed d"
    and "\<And>q b. Wiki q \<in> set d \<Longrightarrow> rx_match (Lit ''![['' # as) (''![['' @ q @ '']]'' @ b) = Some (g q)"
    and "\<And>q. Wiki q \<in> set d \<Longrightarrow> concat (g q) = ''![['' @ q @ '']]''"
  shows "rx_scan [Lit ''![['' # as] (render d) = map g (wiki_paths d)"
  using assms
proof (induction d)
  case Nil
  show ?case by simp
next
  case (Cons x d)
  let ?R = "Lit ''![['' # as"
  from Cons.prems(1) have wfx: "well_formed_piece x" and wfd: "well_formed d" by simp_all
  have rest: "rx_scan [?R] (render d) = map g (wiki_paths d)"
  proof (rule Cons.IH [OF wfd])
    fix q b
    assume "Wiki q \<in> set d"
    then have "Wiki q \<in> set (x # d)" by simp
    then show "rx_match ?R (''![['' @ q @ '']]'' @ b) = Some (g q)" "concat (g q) = ''![['' @ q @ '']]''"
      by (rule Cons.prems(2), rule Cons.prems(3))
  qed
  note skip = scan_skip_char [of "CHR ''!''" "[?R]", OF wiki_needs_bang]
  show ?case
  proof (cases x)
    case (Text t)
    with wfx have "CHR ''!'' \<notin> set t"
      using plain_not [of t "CHR ''!''"] by simp
    from skip [OF _ this] rest show ?thesis
      by (simp add: Text del: rx_match.simps)
  next
    case (Html pre p post)
    with wfx have "CHR ''!'' \<notin> set (render_piece x)"
      using plain_not [of _ "CHR ''!''"] by (auto simp: well_formed_path_def dq_def)
    from skip [OF _ this] rest show ?thesis
      by (simp add: Html del: render_piece.simps rx_match.simps)
  next
    case (Wiki q)
    then have mem: "Wiki q \<in> set (x # d)" by simp
    have "rx_scan [?R] (concat (g q) @ render d) = g q # rx_scan [?R] (render d)"
    proof (rule rx_scan_hit)
      show "rx_first [?R] (concat (g q) @ render d) = Some (g q)"
        unfolding first_single Cons.prems(3) [OF mem] using Cons.prems(2) [OF mem, of "render d"]
        by (simp del: rx_match.simps)
    qed (simp_all add: Cons.prems(3) [OF mem])
    with rest show ?thesis
      by (simp add: Wiki Cons.prems(3) [OF mem] del: rx_match.simps)
  next
    case (Md alt p)
    with wfx have alt: "list_all plain alt" and p: "list_all plain p" by (simp_all add: well_formed_path_def)
    let ?u = "''['' @ alt @ '']('' @ p @ '')''"
    have tail: "CHR ''!'' \<notin> set ?u"
      using plain_not [OF alt, of "CHR ''!''"] plain_not [OF p, of "CHR ''!''"] by simp
    have "rx_first [?R] (''!['' @ alt @ ('']('' @ p @ '')'' @ render d)) = None"
      by (rule wiki_at_md [OF alt]) simp
    then have "rx_first [?R] (CHR ''!'' # ?u @ render d) = None"
      by (simp del: rx_match.simps)
    then have "rx_scan [?R] (CHR ''!'' # ?u @ render d) = rx_scan [?R] (?u @ render d)"
      by (simp del: rx_match.simps)
    also have "\<dots> = rx_scan [?R] (render d)"
      by (rule skip [OF _ tail])
    finally show ?thesis
      using rest by (simp add: Md del: rx_match.simps)
  qed
qed

text \<open>Inline HTML.\<close>

lemma prefix_before:
  assumes "u @ y = w @ c # b" "c \<notin> set u"
  shows "prefix u w"
proof -
  from assms(1) consider us where "u = w @ us" "us @ y = c # b" | us where "u @ us = w"
    by (auto simp: append_eq_append_conv2)
  then show ?thesis
  proof cases
    case 1
    with assms(2) have "us = []"
      by (cases us) auto
    with 1 show ?thesis by simp
  next
    case 2
    then show ?thesis by auto
  qed
qed

lemma count_drop:
  "length (filter P (drop n xs)) \<le> length (filter P xs)"
  by (metis append_take_drop_id filter_append length_append le_add2)

lemma html_rest_none:
  assumes shape: "\<And>t r. k t = Some r \<Longrightarrow>
      \<exists>x y. t = ''src='' @ [dq] @ x @ [dq] @ y \<and> list_all (\<lambda>c. c \<noteq> dq \<and> c \<noteq> CHR ''>'') x"
    and "list_all plain p" "list_all plain post" "i \<le> length (''rc='' @ [dq] @ p @ [dq] @ post)"
  shows "k (drop i (''rc='' @ [dq] @ p @ [dq] @ post) @ CHR ''>'' # b) = None"
proof (rule ccontr)
  let ?w = "''rc='' @ [dq] @ p @ [dq] @ post"
  assume "k (drop i ?w @ CHR ''>'' # b) \<noteq> None"
  then obtain r where "k (drop i ?w @ CHR ''>'' # b) = Some r" by blast
  from shape [OF this] obtain x y where
    t: "drop i ?w @ CHR ''>'' # b = ''src='' @ [dq] @ x @ [dq] @ y"
    and x: "list_all (\<lambda>c. c \<noteq> dq \<and> c \<noteq> CHR ''>'') x"
    by blast
  let ?u = "''src='' @ [dq] @ x @ [dq]"
  have "CHR ''>'' \<notin> set ?u"
    using x by (auto simp: list_all_iff dq_def)
  moreover have "?u @ y = drop i ?w @ CHR ''>'' # b"
    using t by simp
  ultimately have "prefix ?u (drop i ?w)"
    by (rule prefix_before [rotated])
  then obtain z where z: "drop i ?w = ?u @ z"
    by (auto simp: prefix_def)
  have nodq: "dq \<notin> set p" "dq \<notin> set post"
    using plain_not [OF assms(2), of dq] plain_not [OF assms(3), of dq] by simp_all
  have two: "2 \<le> length (filter (\<lambda>c. c = dq) (drop i ?w))"
    unfolding z by simp
  show False
  proof (cases "i < 4")
    case True
    then consider "i = 0" | "i = 1" | "i = 2" | "i = 3" by linarith
    then have "hd (drop i ?w) \<noteq> CHR ''s''"
      by cases (simp_all add: dq_def numeral_2_eq_2 numeral_3_eq_3)
    with z show False by simp
  next
    case False
    then obtain i' where i': "i = 4 + i'"
      by (metis le_add_diff_inverse not_less)
    have "drop i ?w = drop i' (p @ [dq] @ post)"
      unfolding i' by (simp add: numeral_Bit0 drop_Cons')
    with two have "2 \<le> length (filter (\<lambda>c. c = dq) (drop i' (p @ [dq] @ post)))"
      by simp
    also have "\<dots> \<le> length (filter (\<lambda>c. c = dq) (p @ [dq] @ post))"
      by (rule count_drop)
    also have "\<dots> = 1"
      using nodq by (auto simp: filter_empty_conv)
    finally show False by simp
  qed
qed

lemma html_at_html:
  assumes "well_formed_piece (Html pre p post)"
    and shape: "\<And>t r. k t = Some r \<Longrightarrow>
      \<exists>x y. t = ''src='' @ [dq] @ x @ [dq] @ y \<and> list_all (\<lambda>c. c \<noteq> dq \<and> c \<noteq> CHR ''>'') x"
    and here: "k (''src='' @ [dq] @ p @ [dq] @ post @ CHR ''>'' # b) = Some r"
  shows "plus_greedy (\<lambda>c. c \<noteq> CHR ''>'') k (pre @ ''src='' @ [dq] @ p @ [dq] @ post @ CHR ''>'' # b)
    = Some (pre, r)"
proof -
  let ?P1 = "\<lambda>c. c \<noteq> CHR ''>''"
  define w where "w = ''rc='' @ [dq] @ p @ [dq] @ post"
  define s1 where "s1 = (CHR ''s'' # w) @ CHR ''>'' # b"
  from assms(1) have pre: "pre \<noteq> []" "list_all plain pre" and p: "list_all plain p" "p \<noteq> []"
    and post: "list_all plain post"
    by (simp_all add: well_formed_path_def)
  have s1: "s1 = ''src='' @ [dq] @ p @ [dq] @ post @ CHR ''>'' # b"
    by (simp add: s1_def w_def)
  have here': "k s1 = Some r"
    unfolding s1 by (rule here)
  have allw: "list_all ?P1 (CHR ''s'' # w)"
    using p(1) post by (auto simp: list_all_iff dq_def w_def)
  have run: "takeWhile ?P1 s1 = CHR ''s'' # w"
    unfolding s1_def using allw by (subst takeWhile_append2) (auto simp: list_all_iff)
  have later: "k (drop j s1) = None" if "0 < j" "j \<le> length (takeWhile ?P1 s1)" for j
  proof -
    from that(1) obtain i where j: "j = Suc i" by (cases j) auto
    with that(2) have i: "i \<le> length w"
      unfolding run by simp
    have "drop j s1 = drop i w @ CHR ''>'' # b"
      unfolding j s1_def using i by simp
    moreover have "k (drop i w @ CHR ''>'' # b) = None"
      unfolding w_def by (rule html_rest_none [OF shape p(1) post i [unfolded w_def]])
    ultimately show ?thesis
      by (simp only:)
  qed
  have "star_greedy ?P1 k s1 = Some ([], r)"
    by (rule star_greedy_within [OF here' later])
  moreover have "list_all ?P1 pre"
    using pre(2) by (auto simp: list_all_iff)
  ultimately have "plus_greedy ?P1 k (pre @ s1) = Some (pre @ [], r)"
    using pre(1) by (intro plus_greedy_prepend)
  then show ?thesis
    unfolding s1 by simp
qed

lemma html_needs_lt:
  assumes "c \<noteq> CHR ''<''"
  shows "rx_first [Lit ''<img'' # as] (c # s) = None"
  using assms by simp

lemma html_scan:
  assumes "well_formed d"
    and "\<And>pre p post b. Html pre p post \<in> set d \<Longrightarrow>
      rx_match (Lit ''<img'' # as) (''<img'' @ pre @ ''src='' @ [dq] @ p @ [dq] @ post @ CHR ''>'' # b)
        = Some (''<img'' # pre # g p)"
    and "\<And>pre p post. Html pre p post \<in> set d \<Longrightarrow> concat (g p) = ''src='' @ [dq] @ p @ [dq]"
  shows "list_all2 (\<lambda>ps p. \<exists>pre. ps = ''<img'' # pre # g p \<and> pre \<noteq> [] \<and> list_all plain pre)
    (rx_scan [Lit ''<img'' # as] (render d)) (html_paths d)"
  using assms
proof (induction d)
  case Nil
  show ?case by simp
next
  case (Cons x d)
  let ?R = "Lit ''<img'' # as"
  let ?Q = "\<lambda>ps p. \<exists>pre. ps = ''<img'' # pre # g p \<and> pre \<noteq> [] \<and> list_all plain pre"
  from Cons.prems(1) have wfx: "well_formed_piece x" and wfd: "well_formed d" by simp_all
  have rest: "list_all2 ?Q (rx_scan [?R] (render d)) (html_paths d)"
  proof (rule Cons.IH [OF wfd])
    fix pre p post b
    assume "Html pre p post \<in> set d"
    then have "Html pre p post \<in> set (x # d)" by simp
    then show "rx_match ?R (''<img'' @ pre @ ''src='' @ [dq] @ p @ [dq] @ post @ CHR ''>'' # b)
        = Some (''<img'' # pre # g p)" "concat (g p) = ''src='' @ [dq] @ p @ [dq]"
      by (rule Cons.prems(2), rule Cons.prems(3))
  qed
  note skip = scan_skip_char [of "CHR ''<''" "[?R]", OF html_needs_lt]
  show ?case
  proof (cases x)
    case (Text t)
    with wfx have "CHR ''<'' \<notin> set t"
      using plain_not [of t "CHR ''<''"] by simp
    from skip [OF _ this] rest show ?thesis
      by (simp add: Text del: rx_match.simps)
  next
    case (Md alt p)
    with wfx have "CHR ''<'' \<notin> set (render_piece x)"
      using plain_not [of _ "CHR ''<''"] by (auto simp: well_formed_path_def)
    from skip [OF _ this] rest show ?thesis
      by (simp add: Md del: render_piece.simps rx_match.simps)
  next
    case (Wiki q)
    with wfx have "CHR ''<'' \<notin> set (render_piece x)"
      using plain_not [of _ "CHR ''<''"] by (auto simp: well_formed_path_def)
    from skip [OF _ this] rest show ?thesis
      by (simp add: Wiki del: render_piece.simps rx_match.simps)
  next
    case (Html pre p post)
    then have mem: "Html pre p post \<in> set (x # d)" by simp
    note G = Cons.prems(3) [OF mem]
    let ?ps = "''<img'' # pre # g p"
    let ?v = "post @ ''>''"
    from wfx Html have post: "list_all plain post" and pre: "pre \<noteq> []" "list_all plain pre" by simp_all
    have shape: "render (x # d) = concat ?ps @ ?v @ render d"
      by (simp add: Html G)
    have "rx_scan [?R] (concat ?ps @ ?v @ render d) = ?ps # rx_scan [?R] (?v @ render d)"
    proof (rule rx_scan_hit)
      show "rx_first [?R] (concat ?ps @ ?v @ render d) = Some ?ps"
        unfolding first_single using Cons.prems(2) [OF mem, of "render d"]
        by (simp add: G del: rx_match.simps)
    qed simp_all
    also have "rx_scan [?R] (?v @ render d) = rx_scan [?R] (render d)"
      using plain_not [OF post, of "CHR ''<''"] by (intro skip) simp_all
    finally show ?thesis
      unfolding shape using rest pre by (simp add: Html del: rx_match.simps)
  qed
qed

text \<open>A repetition of a character class followed by a literal that starts outside the class.\<close>

lemma plus_then_literal:
  assumes "list_all P r" "r \<noteq> []" "e \<noteq> []" "\<not> P (hd e)"
  shows "rx_match [PlusG P, Lit e] (r @ e @ b) = Some [r, e]"
proof -
  from assms(3) obtain c e' where e: "e = c # e'" by (cases e) auto
  with assms(4) have "\<not> P c" by simp
  then have "star_greedy P (rx_match [Lit e]) (e @ b) = Some ([], [e])"
    by (simp add: e)
  with assms(1,2) have "plus_greedy P (rx_match [Lit e]) (r @ e @ b) = Some (r @ [], [e])"
    by (intro plus_greedy_prepend)
  then show ?thesis by simp
qed

lemma map_nth_of_rel:
  assumes "list_all2 (\<lambda>x y. f x = y) xs ys"
  shows "map f xs = ys"
  using assms by (induction rule: list_all2_induct) simp_all

text \<open>The three patterns of \<open>extractLocalImagePaths\<close>.\<close>

lemma md_local:
  assumes "well_formed d"
  shows "map (\<lambda>ps. ps ! 3) (rx_scan [markdownRegex] (render d)) = md_paths d"
proof -
  let ?as = "[PlusG (\<lambda>c. c \<noteq> CHR '')''), Lit '')'']"
  let ?g = "\<lambda>p. ['']('', p, '')'']"
  have H: "rx_match (Lit '']('' # ?as) ('']('' @ p @ '')'' @ b) = Some (?g p)"
    if "Md alt p \<in> set d" for alt p b
  proof -
    from that assms have "well_formed_piece (Md alt p)"
      by (auto simp: well_formed_def list_all_iff)
    then have "list_all plain p" "p \<noteq> []" by (simp_all add: well_formed_path_def)
    then show ?thesis by (rule md_rest_here)
  qed
  have "list_all2 (\<lambda>ps p. \<exists>u. ps = ''!['' # u # ?g p \<and> CHR ''('' \<notin> set u \<and> list_all dot u)
      (rx_scan [Lit ''!['' # StarL dot # Lit '']('' # ?as] (render d)) (md_paths d)"
  proof (rule md_scan [OF assms H])
    show "\<And>alt p. concat (?g p) = '']('' @ p @ '')''" by simp
  qed
  then have "list_all2 (\<lambda>ps p. ps ! 3 = p) (rx_scan [markdownRegex] (render d)) (md_paths d)"
    unfolding markdownRegex_def
    by (rule list_all2_mono) (auto simp: numeral_3_eq_3)
  then show ?thesis by (rule map_nth_of_rel)
qed

lemma html_local_shape:
  assumes "rx_match [Lit (''src='' @ [dq]), PlusG (\<lambda>c. c \<noteq> dq \<and> c \<noteq> CHR ''>''), Lit [dq]] t = Some r"
  shows "\<exists>x y. t = ''src='' @ [dq] @ x @ [dq] @ y \<and> list_all (\<lambda>c. c \<noteq> dq \<and> c \<noteq> CHR ''>'') x"
proof -
  from rx_match_sound [OF assms] obtain x where
    "r = [''src='' @ [dq], x, [dq]]" "list_all (\<lambda>c. c \<noteq> dq \<and> c \<noteq> CHR ''>'') x" "prefix (concat r) t"
    by (auto simp: list_all2_Cons1)
  then show ?thesis
    by (auto simp: prefix_def)
qed

lemma html_local:
  assumes "well_formed d"
  shows "map (\<lambda>ps. ps ! 3) (rx_scan [htmlRegex] (render d)) = html_paths d"
proof -
  let ?P2 = "\<lambda>c. c \<noteq> dq \<and> c \<noteq> CHR ''>''"
  let ?as = "[Lit (''src='' @ [dq]), PlusG ?P2, Lit [dq]]"
  let ?g = "\<lambda>p. [''src='' @ [dq], p, [dq]]"
  let ?R = "Lit ''<img'' # PlusG (\<lambda>c. c \<noteq> CHR ''>'') # ?as"
  have H: "rx_match ?R (''<img'' @ pre @ ''src='' @ [dq] @ p @ [dq] @ post @ CHR ''>'' # b)
      = Some (''<img'' # pre # ?g p)"
    if "Html pre p post \<in> set d" for pre p post b
  proof -
    from that assms have wfx: "well_formed_piece (Html pre p post)"
      by (auto simp: well_formed_def list_all_iff)
    then have p: "list_all plain p" "p \<noteq> []" by (simp_all add: well_formed_path_def)
    have "rx_match [PlusG ?P2, Lit [dq]] (p @ [dq] @ post @ CHR ''>'' # b) = Some [p, [dq]]"
      using p by (intro plus_then_literal) (auto simp: list_all_iff)
    then have "rx_match ?as (''src='' @ [dq] @ p @ [dq] @ post @ CHR ''>'' # b) = Some (?g p)"
      by simp
    from html_at_html [of pre p post "rx_match ?as", OF wfx html_local_shape this]
    show ?thesis by simp
  qed
  have "list_all2 (\<lambda>ps p. \<exists>pre. ps = ''<img'' # pre # ?g p \<and> pre \<noteq> [] \<and> list_all plain pre)
      (rx_scan [?R] (render d)) (html_paths d)"
  proof (rule html_scan [OF assms H])
    show "\<And>p. concat (?g p) = ''src='' @ [dq] @ p @ [dq]" by simp
  qed
  then have "list_all2 (\<lambda>ps p. ps ! 3 = p) (rx_scan [htmlRegex] (render d)) (html_paths d)"
    unfolding htmlRegex_def
    by (rule list_all2_mono) (auto simp: numeral_3_eq_3)
  then show ?thesis by (rule map_nth_of_rel)
qed

lemma wiki_local:
  assumes "well_formed d"
  shows "map (\<lambda>ps. ps ! 1) (rx_scan [wikiRegex] (render d)) = wiki_paths d"
proof -
  let ?as = "[PlusG (\<lambda>c. c \<noteq> CHR '']''), Lit '']]'']"
  let ?g = "\<lambda>q. [''![['', q, '']]'']"
  have H: "rx_match (Lit ''![['' # ?as) (''![['' @ q @ '']]'' @ b) = Some (?g q)"
    if "Wiki q \<in> set d" for q b
  proof -
    from that assms have "well_formed_piece (Wiki q)"
      by (auto simp: well_formed_def list_all_iff)
    then have q: "list_all plain q" "q \<noteq> []" by (simp_all add: well_formed_path_def)
    have "rx_match ?as (q @ '']]'' @ b) = Some [q, '']]'']"
      using q by (intro plus_then_literal) (auto simp: list_all_iff)
    then show ?thesis by simp
  qed
  have "rx_scan [Lit ''![['' # ?as] (render d) = map ?g (wiki_paths d)"
  proof (rule wiki_scan [OF assms H])
    show "\<And>q. concat (?g q) = ''![['' @ q @ '']]''" by simp
  qed
  then show ?thesis
    by (simp add: wikiRegex_def comp_def)
qed

text \<open>Collecting the captured paths.\<close>

lemma foldl_add_local:
  assumes "\<And>m. m \<in> set ms \<Longrightarrow> trim (m ! i) = m ! i"
  shows "foldl (add_local i) acc ms = foldl set_add acc (filter isLocalPath (map (\<lambda>m. m ! i) ms))"
  using assms
  by (induction ms arbitrary: acc) (simp_all add: add_local_def)

lemma well_formed_md_paths: "well_formed d \<Longrightarrow> p \<in> set (md_paths d) \<Longrightarrow> well_formed_path p"
  by (induction d rule: md_paths.induct) auto

lemma well_formed_html_paths: "well_formed d \<Longrightarrow> p \<in> set (html_paths d) \<Longrightarrow> well_formed_path p"
  by (induction d rule: html_paths.induct) auto

lemma well_formed_wiki_paths: "well_formed d \<Longrightarrow> p \<in> set (wiki_paths d) \<Longrightarrow> well_formed_path p"
  by (induction d rule: wiki_paths.induct) auto

lemma collect_paths:
  assumes "map (\<lambda>m. m ! i) ms = ps" "\<And>p. p \<in> set ps \<Longrightarrow> well_formed_path p"
  shows "foldl (add_local i) acc ms = foldl set_add acc (filter isLocalPath ps)"
proof -
  have "trim (m ! i) = m ! i" if "m \<in> set ms" for m
  proof -
    from that assms(1) have "m ! i \<in> set ps" by auto
    from assms(2) [OF this] show ?thesis by (simp add: well_formed_path_def)
  qed
  from foldl_add_local [of ms i acc, OF this] assms(1) show ?thesis by simp
qed

lemma extract_local:
  assumes "well_formed d"
  shows "extractLocalImagePaths (render d)
    = dedup (filter isLocalPath (md_paths d @ html_paths d @ wiki_paths d))"
proof -
  have a: "foldl (add_local 3) acc (rx_scan [markdownRegex] (render d))
      = foldl set_add acc (filter isLocalPath (md_paths d))" for acc
    using md_local [OF assms] well_formed_md_paths [OF assms] by (rule collect_paths)
  have b: "foldl (add_local 3) acc (rx_scan [htmlRegex] (render d))
      = foldl set_add acc (filter isLocalPath (html_paths d))" for acc
    using html_local [OF assms] well_formed_html_paths [OF assms] by (rule collect_paths)
  have c: "foldl (add_local 1) acc (rx_scan [wikiRegex] (render d))
      = foldl set_add acc (filter isLocalPath (wiki_paths d))" for acc
    using wiki_local [OF assms] well_formed_wiki_paths [OF assms] by (rule collect_paths)
  show ?thesis
    unfolding extractLocalImagePaths_def Let_def dedup_def a b c
    by simp
qed

text \<open>Removing the delimiters from a match.\<close>

lemma rx_replace_skip:
  assumes "\<And>j. j < length u \<Longrightarrow> rx_first r (drop j (u @ v)) = None"
  shows "rx_replace r repl bef (u @ v) = u @ rx_replace r repl (bef @ u) v"
  using assms
proof (induction u arbitrary: bef)
  case Nil
  show ?case by simp
next
  case (Cons c u)
  from Cons.prems [of 0] have "rx_first r (c # u @ v) = None" by simp
  moreover have "\<And>j. j < length u \<Longrightarrow> rx_first r (drop j (u @ v)) = None"
    using Cons.prems [of "Suc j" for j] by simp
  ultimately show ?case
    using Cons.IH [of "bef @ [c]"] by simp
qed

lemma rx_replace_delete:
  assumes "rx_first r (m @ rest) = Some ps" "concat ps = m" "m \<noteq> []"
  shows "rx_replace r [] bef (m @ rest) = rx_replace r [] (bef @ m) rest"
  using rx_replace_hit [OF assms, of "[]" bef] by simp

lemma syntax_at_plain:
  assumes "plain c"
  shows "rx_first syntaxRegex (c # s) = None"
  using assms by (auto simp: syntaxRegex_def plain_def)

lemma strip_plain:
  assumes "list_all plain u"
  shows "rx_replace syntaxRegex [] bef (u @ v) = u @ rx_replace syntaxRegex [] (bef @ u) v"
proof (rule rx_replace_skip)
  fix j
  assume j: "j < length u"
  then have d: "drop j (u @ v) = u ! j # drop (Suc j) u @ v"
    by (simp add: Cons_nth_drop_Suc)
  from j assms have "plain (u ! j)"
    by (simp add: list_all_length)
  then show "rx_first syntaxRegex (drop j (u @ v)) = None"
    unfolding d by (rule syntax_at_plain)
qed

lemma strip_closing:
  "rx_replace syntaxRegex [] bef '')'' = []"
  "rx_replace syntaxRegex [] bef [dq] = []"
  "rx_replace syntaxRegex [] bef '']]'' = []"
  by (simp_all add: syntaxRegex_def dq_def)

lemma rx_first_skip: "rx_match a s = None \<Longrightarrow> rx_first (a # r) s = rx_first r s"
  by simp

lemma rx_first_here: "rx_match a s = Some ps \<Longrightarrow> rx_first (a # r) s = Some ps"
  by simp

lemma strip_md:
  assumes "CHR ''('' \<notin> set u" "list_all dot u" "list_all plain p"
  shows "replace_all syntaxRegex [] (''!['' @ u @ '']('' @ p @ '')'') = p"
proof -
  let ?m = "''!['' @ u @ ''](''"
  have "rx_match (Lit '']('' # []) ('']('' @ p @ '')'') = Some [''](''] "
    by simp
  from md_at_md [OF assms(1,2) this]
  have "rx_first syntaxRegex (?m @ p @ '')'') = Some [''!['', u, ''](''] "
    unfolding syntaxRegex_def by (intro rx_first_here) simp
  then have "rx_replace syntaxRegex [] [] (?m @ p @ '')'') = rx_replace syntaxRegex [] ([] @ ?m) (p @ '')'')"
    by (rule rx_replace_delete) simp_all
  also have "\<dots> = p @ rx_replace syntaxRegex [] (([] @ ?m) @ p) '')''"
    by (rule strip_plain [OF assms(3)])
  also have "\<dots> = p"
    by (simp only: strip_closing append_Nil2)
  finally show ?thesis
    unfolding replace_all_def by (simp only: append_assoc)
qed

lemma star_lazy_absent:
  assumes "\<And>j. j \<le> length s \<Longrightarrow> k (drop j s) = None"
  shows "star_lazy P k s = None"
proof (cases "star_lazy P k s")
  case None
  then show ?thesis .
next
  case (Some y)
  obtain x r where y: "y = (x, r)" by (cases y)
  from star_lazy_Some [OF Some [unfolded y]] obtain rest where "s = x @ rest" "k rest = Some r"
    by blast
  with assms [of "length x"] show ?thesis by simp
qed

lemma strip_wiki:
  assumes "list_all plain p"
  shows "replace_all syntaxRegex [] (''![['' @ p @ '']]'') = p"
proof -
  let ?u = "''['' @ p @ '']]''"
  let ?k = "rx_match [Lit '']('']"
  have nop: "CHR ''('' \<notin> set ?u"
    using plain_not [OF assms, of "CHR ''(''"] by simp
  have "?k (drop j ?u) = None" if "j \<le> length ?u" for j
  proof (cases "j < length ?u")
    case True
    from md_rest_none [OF nop _ True, of "[]" "[]"] show ?thesis by simp
  next
    case False
    with that have "drop j ?u = []" by simp
    then show ?thesis by simp
  qed
  then have "star_lazy dot ?k ?u = None"
    by (rule star_lazy_absent)
  then have 1: "rx_match [Lit ''!['', StarL dot, Lit '']('']  (''!['' @ ?u) = None"
    unfolding md_unfold by simp
  have "rx_first syntaxRegex (''!['' @ ?u) = Some [''![['']"
    unfolding syntaxRegex_def rx_first_skip [OF 1] by (simp add: dq_def)
  then have "rx_first syntaxRegex (''![['' @ p @ '']]'') = Some [''![['']"
    by simp
  then have "rx_replace syntaxRegex [] [] (''![['' @ p @ '']]'') = rx_replace syntaxRegex [] ([] @ ''![['') (p @ '']]'')"
    by (rule rx_replace_delete) simp_all
  also have "\<dots> = p @ rx_replace syntaxRegex [] (([] @ ''![['') @ p) '']]''"
    by (rule strip_plain [OF assms])
  also have "\<dots> = p"
    by (simp only: strip_closing append_Nil2)
  finally show ?thesis
    unfolding replace_all_def by (simp only: append_assoc)
qed

lemma split_unique:
  assumes "u @ c # y = w @ c # b" "c \<notin> set u" "c \<notin> set w"
  shows "u = w"
proof -
  from assms(1,2) have "prefix u w"
    by (rule prefix_before)
  moreover from assms(1) [symmetric] assms(3) have "prefix w u"
    by (rule prefix_before)
  ultimately show ?thesis
    by (simp add: prefix_order.antisym)
qed

lemma src_last:
  assumes "dq \<notin> set p" "\<not> suffix ''src='' p" "0 < j"
  shows "\<not> prefix (''src='' @ [dq]) (drop j (''src='' @ [dq] @ p @ [dq]))"
proof (cases "j < 5")
  case True
  with assms(3) consider "j = 1" | "j = 2" | "j = 3" | "j = 4" by linarith
  then show ?thesis
    by cases (simp_all add: dq_def numeral_2_eq_2 numeral_3_eq_3 eval_nat_numeral)
next
  case False
  then obtain i where i: "j = 5 + i"
    by (metis le_add_diff_inverse not_less)
  have d: "drop j (''src='' @ [dq] @ p @ [dq]) = drop i (p @ [dq])"
    unfolding i by (simp add: eval_nat_numeral)
  show ?thesis
  proof
    assume "prefix (''src='' @ [dq]) (drop j (''src='' @ [dq] @ p @ [dq]))"
    then obtain z where z: "drop i (p @ [dq]) = ''src='' @ dq # z"
      unfolding d by (auto simp: prefix_def)
    have "i < length p"
    proof (rule ccontr)
      assume "\<not> i < length p"
      then have "drop i (p @ [dq]) = [] \<or> drop i (p @ [dq]) = [dq]"
        by (cases "i = length p") simp_all
      with z show False by (auto simp: dq_def)
    qed
    with z have "''src='' @ dq # z = drop i p @ dq # []" by simp
    moreover have "dq \<notin> set ''src=''" by (simp add: dq_def)
    moreover have "dq \<notin> set (drop i p)"
      using assms(1) by (meson in_set_dropD)
    ultimately have "''src='' = drop i p"
      by (rule split_unique)
    then have "suffix ''src='' p"
      by (metis suffix_drop)
    with assms(2) show False ..
  qed
qed

lemma strip_html:
  assumes "pre \<noteq> []" "list_all plain pre" "list_all plain p" "\<not> suffix ''src='' p"
  shows "replace_all syntaxRegex [] (''<img'' @ pre @ ''src='' @ [dq] @ p @ [dq]) = p"
proof -
  let ?P1 = "\<lambda>c. c \<noteq> CHR ''>''"
  let ?L = "''src='' @ [dq]"
  let ?k = "rx_match [Lit ?L]"
  let ?s1 = "?L @ p @ [dq]"
  let ?m = "''<img'' @ pre @ ?L"
  have nodq: "dq \<notin> set p"
    using plain_not [OF assms(3), of dq] by simp
  have here: "?k ?s1 = Some [?L]"
    by simp
  have later: "?k (drop j ?s1) = None" if "0 < j" for j
    using src_last [OF nodq assms(4) that] by simp
  have "star_greedy ?P1 ?k ?s1 = Some ([], [?L])"
    by (rule star_greedy_first [OF here later])
  moreover have "list_all ?P1 pre"
    using assms(2) by (auto simp: list_all_iff)
  ultimately have "plus_greedy ?P1 ?k (pre @ ?s1) = Some (pre @ [], [?L])"
    using assms(1) by (intro plus_greedy_prepend)
  then have 3: "rx_match [Lit ''<img'', PlusG ?P1, Lit ?L] (''<img'' @ pre @ ?s1) = Some [''<img'', pre, ?L]"
    by simp
  have 1: "rx_match [Lit ''!['', StarL dot, Lit ''](''] (''<img'' @ pre @ ?s1) = None"
    by simp
  have 2: "rx_match [Lit '')''] (''<img'' @ pre @ ?s1) = None"
    by simp
  have "rx_first syntaxRegex (''<img'' @ pre @ ?s1) = Some [''<img'', pre, ?L]"
    unfolding syntaxRegex_def rx_first_skip [OF 1] rx_first_skip [OF 2] by (rule rx_first_here [OF 3])
  then have "rx_first syntaxRegex (?m @ p @ [dq]) = Some [''<img'', pre, ?L]"
    by simp
  then have "rx_replace syntaxRegex [] [] (?m @ p @ [dq]) = rx_replace syntaxRegex [] ([] @ ?m) (p @ [dq])"
    by (rule rx_replace_delete) simp_all
  also have "\<dots> = p @ rx_replace syntaxRegex [] (([] @ ?m) @ p) [dq]"
    by (rule strip_plain [OF assms(3)])
  also have "\<dots> = p"
    by (simp only: strip_closing append_Nil2)
  finally show ?thesis
    unfolding replace_all_def by (simp only: append_assoc)
qed

text \<open>The patterns of \<open>extractRemoteImageUrls\<close>.\<close>

lemma url_cases:
  assumes "is_url p"
  obtains r where "p = ''https://'' @ r" "r \<noteq> []" "url_pieces p = [''http'', ''s'', ''://'', r]"
  | r where "p = ''http://'' @ r" "r \<noteq> []" "url_pieces p = [''http'', [], ''://'', r]"
proof (cases "prefix ''https://'' p")
  case True
  then obtain r where r: "p = ''https://'' @ r" by (auto simp: prefix_def)
  moreover from assms True r have "r \<noteq> []"
    by (auto simp: is_url_def)
  moreover have "url_pieces p = [''http'', ''s'', ''://'', r]"
    by (simp add: url_pieces_def r)
  ultimately show ?thesis by (rule that(1))
next
  case False
  with assms have h: "prefix ''http://'' p" "7 < length p"
    by (auto simp: is_url_def)
  then obtain r where r: "p = ''http://'' @ r" by (auto simp: prefix_def)
  moreover from h(2) r have "r \<noteq> []" by auto
  moreover have "url_pieces p = [''http'', [], ''://'', r]"
    using False by (simp add: url_pieces_def r)
  ultimately show ?thesis by (rule that(2))
qed

lemma concat_url_pieces: "is_url p \<Longrightarrow> concat (url_pieces p) = p"
  by (erule url_cases) simp_all

lemma url_match:
  assumes "is_url p" "list_all P p" "e \<noteq> []" "\<not> P (hd e)"
  shows "rx_match [Lit ''http'', Opt ''s'', Lit ''://'', PlusG P, Lit e] (p @ e @ b)
    = Some (url_pieces p @ [e])"
  using assms(1)
proof (cases rule: url_cases)
  case (1 r)
  from assms(2) 1(1) have "list_all P r" by simp
  from plus_then_literal [OF this 1(2) assms(3,4), of b] show ?thesis
    unfolding 1(3) by (simp add: 1(1))
next
  case (2 r)
  from assms(2) 2(1) have "list_all P r" by simp
  from plus_then_literal [OF this 2(2) assms(3,4), of b] show ?thesis
    unfolding 2(3) by (simp add: 2(1))
qed

lemma remote_noteD:
  assumes "remote_note d"
  shows "well_formed d"
    and "p \<in> set (md_paths d) \<Longrightarrow> is_url p \<and> list_all (\<lambda>c. \<not> is_space c) p"
    and "p \<in> set (html_paths d) \<Longrightarrow> is_url p \<and> \<not> suffix ''src='' p"
    and "p \<in> set (wiki_paths d) \<Longrightarrow> is_url p"
  using assms by (auto simp: remote_note_def references_def list_all_iff)

lemma md_paths_mem: "Md alt p \<in> set d \<Longrightarrow> p \<in> set (md_paths d)"
  by (induction d rule: md_paths.induct) auto

lemma html_paths_mem: "Html pre p post \<in> set d \<Longrightarrow> p \<in> set (html_paths d)"
  by (induction d rule: html_paths.induct) auto

lemma wiki_paths_mem: "Wiki p \<in> set d \<Longrightarrow> p \<in> set (wiki_paths d)"
  by (induction d rule: wiki_paths.induct) auto

lemma md_remote:
  assumes "remote_note d"
  shows "list_all2 (\<lambda>m p. replace_all syntaxRegex [] m = p)
    (map concat (rx_scan [mdRemoteRegex] (render d))) (md_paths d)"
proof -
  let ?Pm = "\<lambda>c. \<not> is_space c \<and> c \<noteq> CHR '')''"
  let ?as = "[Lit ''http'', Opt ''s'', Lit ''://'', PlusG ?Pm, Lit '')'']"
  let ?g = "\<lambda>p. '']('' # url_pieces p @ ['')'']"
  note wfd = remote_noteD(1) [OF assms]
  have H: "rx_match (Lit '']('' # ?as) ('']('' @ p @ '')'' @ b) = Some (?g p)"
    and G: "concat (?g p) = '']('' @ p @ '')''"
    if "Md alt p \<in> set d" for alt p b
  proof -
    from md_paths_mem [OF that] have p: "p \<in> set (md_paths d)" .
    from remote_noteD(2) [OF assms p] have u: "is_url p" "list_all (\<lambda>c. \<not> is_space c) p"
      by simp_all
    from well_formed_md_paths [OF wfd p] have "list_all plain p" by (simp add: well_formed_path_def)
    with u(2) have "list_all ?Pm p"
      by (auto simp: list_all_iff)
    from url_match [OF u(1) this, of "'')''" b] show "rx_match (Lit '']('' # ?as) ('']('' @ p @ '')'' @ b) = Some (?g p)"
      by simp
    show "concat (?g p) = '']('' @ p @ '')''"
      using concat_url_pieces [OF u(1)] by simp
  qed
  have "list_all2 (\<lambda>ps p. \<exists>u. ps = ''!['' # u # ?g p \<and> CHR ''('' \<notin> set u \<and> list_all dot u)
      (rx_scan [Lit ''!['' # StarL dot # Lit '']('' # ?as] (render d)) (md_paths d)"
    by (rule md_scan [OF wfd H G])
  then have "list_all2 (\<lambda>ps p. replace_all syntaxRegex [] (concat ps) = p)
      (rx_scan [mdRemoteRegex] (render d)) (md_paths d)"
    unfolding mdRemoteRegex_def
  proof (rule list.rel_mono_strong)
    fix ps p
    assume p: "p \<in> set (md_paths d)"
      and "\<exists>u. ps = ''!['' # u # ?g p \<and> CHR ''('' \<notin> set u \<and> list_all dot u"
    then obtain u where u: "ps = ''!['' # u # ?g p" "CHR ''('' \<notin> set u" "list_all dot u"
      by blast
    from remote_noteD(2) [OF assms p] have "concat (url_pieces p) = p"
      by (simp add: concat_url_pieces)
    then have "concat ps = ''!['' @ u @ '']('' @ p @ '')''"
      by (simp add: u(1))
    moreover from well_formed_md_paths [OF wfd p] have "list_all plain p" by (simp add: well_formed_path_def)
    ultimately show "replace_all syntaxRegex [] (concat ps) = p"
      using strip_md [OF u(2,3)] by simp
  qed
  then show ?thesis
    by (simp add: list_all2_map1)
qed

lemma html_remote_shape:
  assumes "rx_match [Lit (''src='' @ [dq]), Lit ''http'', Opt ''s'', Lit ''://'',
      PlusG (\<lambda>c. c \<noteq> dq \<and> c \<noteq> CHR ''>''), Lit [dq]] t = Some r"
  shows "\<exists>x y. t = ''src='' @ [dq] @ x @ [dq] @ y \<and> list_all (\<lambda>c. c \<noteq> dq \<and> c \<noteq> CHR ''>'') x"
proof -
  from rx_match_sound [OF assms] obtain opt x where
    r: "r = [''src='' @ [dq], ''http'', opt, ''://'', x, [dq]]" "opt = ''s'' \<or> opt = []"
      "list_all (\<lambda>c. c \<noteq> dq \<and> c \<noteq> CHR ''>'') x" "prefix (concat r) t"
    by (auto simp: list_all2_Cons1)
  from r(4) obtain y where "t = concat r @ y" by (auto simp: prefix_def)
  then have "t = ''src='' @ [dq] @ (''http'' @ opt @ ''://'' @ x) @ [dq] @ y"
    by (simp add: r(1))
  moreover have "list_all (\<lambda>c. c \<noteq> dq \<and> c \<noteq> CHR ''>'') (''http'' @ opt @ ''://'' @ x)"
    using r(2,3) by (auto simp: dq_def)
  ultimately show ?thesis by blast
qed

lemma html_remote:
  assumes "remote_note d"
  shows "list_all2 (\<lambda>m p. replace_all syntaxRegex [] m = p)
    (map concat (rx_scan [htmlRemoteRegex] (render d))) (html_paths d)"
proof -
  let ?P2 = "\<lambda>c. c \<noteq> dq \<and> c \<noteq> CHR ''>''"
  let ?as = "[Lit (''src='' @ [dq]), Lit ''http'', Opt ''s'', Lit ''://'', PlusG ?P2, Lit [dq]]"
  let ?g = "\<lambda>p. (''src='' @ [dq]) # url_pieces p @ [[dq]]"
  let ?R = "Lit ''<img'' # PlusG (\<lambda>c. c \<noteq> CHR ''>'') # ?as"
  note wfd = remote_noteD(1) [OF assms]
  have H: "rx_match ?R (''<img'' @ pre @ ''src='' @ [dq] @ p @ [dq] @ post @ CHR ''>'' # b)
      = Some (''<img'' # pre # ?g p)"
    and G: "concat (?g p) = ''src='' @ [dq] @ p @ [dq]"
    if "Html pre p post \<in> set d" for pre p post b
  proof -
    from html_paths_mem [OF that] have p: "p \<in> set (html_paths d)" .
    from remote_noteD(3) [OF assms p] have u: "is_url p" by simp
    from that wfd have wfx: "well_formed_piece (Html pre p post)"
      by (auto simp: well_formed_def list_all_iff)
    then have "list_all plain p" by (simp add: well_formed_path_def)
    then have "list_all ?P2 p"
      by (auto simp: list_all_iff)
    from url_match [OF u this, of "[dq]" "post @ CHR ''>'' # b"]
    have "rx_match ?as (''src='' @ [dq] @ p @ [dq] @ post @ CHR ''>'' # b) = Some (?g p)"
      by simp
    from html_at_html [of pre p post "rx_match ?as", OF wfx html_remote_shape this]
    show "rx_match ?R (''<img'' @ pre @ ''src='' @ [dq] @ p @ [dq] @ post @ CHR ''>'' # b)
      = Some (''<img'' # pre # ?g p)"
      by simp
    show "concat (?g p) = ''src='' @ [dq] @ p @ [dq]"
      using concat_url_pieces [OF u] by simp
  qed
  have "list_all2 (\<lambda>ps p. \<exists>pre. ps = ''<img'' # pre # ?g p \<and> pre \<noteq> [] \<and> list_all plain pre)
      (rx_scan [?R] (render d)) (html_paths d)"
    by (rule html_scan [OF wfd H G])
  then have "list_all2 (\<lambda>ps p. replace_all syntaxRegex [] (concat ps) = p)
      (rx_scan [htmlRemoteRegex] (render d)) (html_paths d)"
    unfolding htmlRemoteRegex_def
  proof (rule list.rel_mono_strong)
    fix ps p
    assume p: "p \<in> set (html_paths d)"
      and "\<exists>pre. ps = ''<img'' # pre # ?g p \<and> pre \<noteq> [] \<and> list_all plain pre"
    then obtain pre where u: "ps = ''<img'' # pre # ?g p" "pre \<noteq> []" "list_all plain pre"
      by blast
    from remote_noteD(3) [OF assms p] have c: "concat (url_pieces p) = p" and s: "\<not> suffix ''src='' p"
      by (simp_all add: concat_url_pieces)
    from c have "concat ps = ''<img'' @ pre @ ''src='' @ [dq] @ p @ [dq]"
      by (simp add: u(1))
    moreover from well_formed_html_paths [OF wfd p] have "list_all plain p" by (simp add: well_formed_path_def)
    ultimately show "replace_all syntaxRegex [] (concat ps) = p"
      using strip_html [OF u(2,3) _ s] by simp
  qed
  then show ?thesis
    by (simp add: list_all2_map1)
qed

lemma wiki_remote:
  assumes "remote_note d"
  shows "list_all2 (\<lambda>m p. replace_all syntaxRegex [] m = p)
    (map concat (rx_scan [wikiRemoteRegex] (render d))) (wiki_paths d)"
proof -
  let ?as = "[Lit ''http'', Opt ''s'', Lit ''://'', PlusG (\<lambda>c. c \<noteq> CHR '']''), Lit '']]'']"
  let ?g = "\<lambda>q. ''![['' # url_pieces q @ ['']]'']"
  note wfd = remote_noteD(1) [OF assms]
  have H: "rx_match (Lit ''![['' # ?as) (''![['' @ q @ '']]'' @ b) = Some (?g q)"
    and G: "concat (?g q) = ''![['' @ q @ '']]''"
    if "Wiki q \<in> set d" for q b
  proof -
    from wiki_paths_mem [OF that] have q: "q \<in> set (wiki_paths d)" .
    from remote_noteD(4) [OF assms q] have u: "is_url q" .
    from well_formed_wiki_paths [OF wfd q] have "list_all plain q" by (simp add: well_formed_path_def)
    then have "list_all (\<lambda>c. c \<noteq> CHR '']'') q"
      by (auto simp: list_all_iff)
    from url_match [OF u this, of "'']]''" b]
    show "rx_match (Lit ''![['' # ?as) (''![['' @ q @ '']]'' @ b) = Some (?g q)"
      by simp
    show "concat (?g q) = ''![['' @ q @ '']]''"
      using concat_url_pieces [OF u] by simp
  qed
  have scan: "rx_scan [wikiRemoteRegex] (render d) = map ?g (wiki_paths d)"
    unfolding wikiRemoteRegex_def by (rule wiki_scan [OF wfd H G])
  have "replace_all syntaxRegex [] (concat (?g q)) = q" if "q \<in> set (wiki_paths d)" for q
  proof -
    from remote_noteD(4) [OF assms that] have "concat (url_pieces q) = q"
      by (simp add: concat_url_pieces)
    then have "concat (?g q) = ''![['' @ q @ '']]''" by simp
    moreover from well_formed_wiki_paths [OF wfd that] have "list_all plain q" by (simp add: well_formed_path_def)
    ultimately show ?thesis
      using strip_wiki by simp
  qed
  then show ?thesis
    unfolding scan by (simp add: list_all2_map1 list_all2_same comp_def)
qed

lemma foldl_add_remote:
  assumes "list_all2 (\<lambda>m p. replace_all syntaxRegex [] m = p) ms ps" "[] \<notin> set ps"
  shows "foldl (add_remote origin) acc ms = foldl set_add acc (filter (prefix origin) ps)"
  using assms
  by (induction arbitrary: acc rule: list_all2_induct) (auto simp: add_remote_def)

lemma extract_remote:
  assumes "remote_note d"
  shows "extractRemoteImageUrls (render d) origin = dedup (filter (prefix origin) (references d))"
proof -
  note wfd = remote_noteD(1) [OF assms]
  have "list_all2 (\<lambda>m p. replace_all syntaxRegex [] m = p) (remote_matches (render d)) (references d)"
    unfolding remote_matches_def Let_def references_def
    by (intro list_all2_appendI md_remote html_remote wiki_remote assms)
  moreover have "[] \<notin> set (references d)"
    using well_formed_md_paths [OF wfd] well_formed_html_paths [OF wfd] well_formed_wiki_paths [OF wfd]
    by (auto simp: references_def well_formed_path_def)
  ultimately show ?thesis
    unfolding extractRemoteImageUrls_def dedup_def by (rule foldl_add_remote)
qed

lemma foldl_set_add_distinct:
  "distinct (acc @ xs) \<Longrightarrow> foldl set_add acc xs = acc @ xs"
  by (induction xs arbitrary: acc) (simp_all add: set_add_def)

lemma dedup_distinct: "distinct xs \<Longrightarrow> dedup xs = xs"
  using foldl_set_add_distinct [of "[]" xs] by (simp add: dedup_def)

lemma length_references:
  "length (references d) = length (filter is_reference d)"
proof (induction d)
  case Nil
  show ?case by (simp add: references_def)
next
  case (Cons x d)
  then show ?case by (cases x) (simp_all add: references_def)
qed

lemma dedup_all:
  assumes "list_all P xs" "distinct xs"
  shows "dedup (filter P xs) = xs"
proof -
  from assms(1) have "filter P xs = xs"
    by (simp add: list_all_iff)
  with dedup_distinct [OF assms(2)] show ?thesis by simp
qed

text \<open>C2, as stated, fails: two well-formed references to the same path give one entry, because
  the extraction collects the paths in a set.\<close>

theorem C2_duplicate_counterexample:
  "well_formed [Md ''a'' ''x.png'', Text '' '', Md ''b'' ''x.png'']
   \<and> render [Md ''a'' ''x.png'', Text '' '', Md ''b'' ''x.png''] = ''![a](x.png) ![b](x.png)''
   \<and> length (filter is_reference [Md ''a'' ''x.png'', Text '' '', Md ''b'' ''x.png'']) = 2
   \<and> extractLocalImagePaths ''![a](x.png) ![b](x.png)'' = [''x.png'']"
  by code_simp

text \<open>C2 (amended): for a well-formed note, \<open>extractLocalImagePaths\<close> returns the local paths
  of its references, the markdown ones first, then the inline HTML ones, then the wiki embeds,
  each path once and as written; when all the N paths are local and pairwise distinct, it
  returns exactly these N paths. For a well-formed note all of whose references are remote,
  \<open>extractRemoteImageUrls\<close> returns in the same way the URLs that start with the origin; when
  all the N URLs start with the origin and are pairwise distinct, it returns exactly these N
  URLs.\<close>

theorem C2_extraction:
  "(well_formed d \<longrightarrow> extractLocalImagePaths (render d) = dedup (filter isLocalPath (references d)))
   \<and> (well_formed d \<and> list_all isLocalPath (references d) \<and> distinct (references d) \<longrightarrow>
        extractLocalImagePaths (render d) = references d
        \<and> length (extractLocalImagePaths (render d)) = length (filter is_reference d))
   \<and> (remote_note d \<longrightarrow>
        extractRemoteImageUrls (render d) origin = dedup (filter (prefix origin) (references d)))
   \<and> (remote_note d \<and> list_all (prefix origin) (references d) \<and> distinct (references d) \<longrightarrow>
        extractRemoteImageUrls (render d) origin = references d
        \<and> length (extractRemoteImageUrls (render d) origin) = length (filter is_reference d))"
proof -
  have l: "extractLocalImagePaths (render d) = dedup (filter isLocalPath (references d))" if "well_formed d"
    unfolding references_def by (rule extract_local [OF that])
  have r: "extractRemoteImageUrls (render d) origin = dedup (filter (prefix origin) (references d))"
    if "remote_note d"
    by (rule extract_remote [OF that])
  have l': "extractLocalImagePaths (render d) = references d"
    if "well_formed d" "list_all isLocalPath (references d)" "distinct (references d)"
    using l [OF that(1)] dedup_all [OF that(2,3)] by simp
  have r': "extractRemoteImageUrls (render d) origin = references d"
    if "remote_note d" "list_all (prefix origin) (references d)" "distinct (references d)"
    using r [OF that(1)] dedup_all [OF that(2,3)] by simp
  show ?thesis
    using l r l' r' length_references [of d] by presburger
qed

text \<open>Two instances: a note with a wiki embed and a markdown image on one line and an inline
  tag on the next, once with local paths and once with URLs of the server.\<close>

theorem C2_witness:
  "well_formed mixed_note
   \<and> render mixed_note = ''![[z.png]] and ![a](img/x.png)'' @ [CHR 0x0A] @ ''<img alt=1 src='' @ [dq] @ ''y.png'' @ [dq] @ '' />.''
   \<and> list_all isLocalPath (references mixed_note) \<and> distinct (references mixed_note)
   \<and> extractLocalImagePaths (render mixed_note) = [''img/x.png'', ''y.png'', ''z.png'']
   \<and> length (extractLocalImagePaths (render mixed_note)) = length (filter is_reference mixed_note)
   \<and> remote_note hosted_note
   \<and> list_all (prefix ''https://h'') (references hosted_note) \<and> distinct (references hosted_note)
   \<and> extractRemoteImageUrls (render hosted_note) ''https://h''
       = [''https://h/x.png'', ''https://h/y.png'', ''https://h/z.png'']
   \<and> length (extractRemoteImageUrls (render hosted_note) ''https://h'') = length (filter is_reference hosted_note)"
proof -
  have 1: "well_formed mixed_note" by code_simp
  have 2: "list_all isLocalPath (references mixed_note)" by code_simp
  have 3: "distinct (references mixed_note)" by code_simp
  have 4: "references mixed_note = [''img/x.png'', ''y.png'', ''z.png'']" by code_simp
  have 5: "render mixed_note = ''![[z.png]] and ![a](img/x.png)'' @ [CHR 0x0A] @ ''<img alt=1 src='' @ [dq] @ ''y.png'' @ [dq] @ '' />.''"
    by code_simp
  have 6: "remote_note hosted_note" by code_simp
  have 7: "list_all (prefix ''https://h'') (references hosted_note)" by code_simp
  have 8: "distinct (references hosted_note)" by code_simp
  have 9: "references hosted_note = [''https://h/x.png'', ''https://h/y.png'', ''https://h/z.png'']" by code_simp
  from C2_extraction [of mixed_note] 1 2 3 have a:
    "extractLocalImagePaths (render mixed_note) = references mixed_note"
    "length (extractLocalImagePaths (render mixed_note)) = length (filter is_reference mixed_note)"
    by blast+
  from C2_extraction [of hosted_note "''https://h''"] 6 7 8 have b:
    "extractRemoteImageUrls (render hosted_note) ''https://h'' = references hosted_note"
    "length (extractRemoteImageUrls (render hosted_note) ''https://h'') = length (filter is_reference hosted_note)"
    by blast+
  from 1 2 3 4 5 6 7 8 9 a b show ?thesis by (simp only:)
qed

subsection \<open>Rewriting the references of a note\<close>

text \<open>The markdown pattern of the rewriters.\<close>

lemma link_none:
  assumes "\<And>s r. k s = Some r \<Longrightarrow> prefix '']('' s"
    and "CHR ''('' \<notin> set u" "v = [] \<or> hd v \<noteq> CHR ''(''" "j < length u"
  shows "k (drop j (u @ v)) = None"
  using no_link_start [OF assms(2,3,4)] assms(1) by (cases "k (drop j (u @ v))") auto

lemma link_start:
  "rx_match [Lit ('']('' @ l)] s = Some r \<Longrightarrow> prefix '']('' s"
  by (auto split: if_splits simp: prefix_def)

lemma other_link:
  assumes "list_all plain p" "list_all plain q" "q \<noteq> p"
  shows "\<not> prefix ('']('' @ p @ '')'') ('']('' @ q @ '')'' @ v)"
proof
  assume "prefix ('']('' @ p @ '')'') ('']('' @ q @ '')'' @ v)"
  then obtain z where "'']('' @ q @ '')'' @ v = ('']('' @ p @ '')'') @ z"
    by (auto simp: prefix_def)
  then have "q @ CHR '')'' # v = p @ CHR '')'' # z" by simp
  moreover have "CHR '')'' \<notin> set q" "CHR '')'' \<notin> set p"
    using plain_not [OF assms(2), of "CHR '')''"] plain_not [OF assms(1), of "CHR '')''"] by simp_all
  ultimately have "q = p" by (rule split_unique)
  with assms(3) show False ..
qed

lemma piece_blocks:
  assumes "well_formed_piece x" "list_all plain p" "\<not> is_md_to p x" "v = [] \<or> hd v \<noteq> CHR ''(''"
    and "j < length (render_piece x)"
  shows "rx_match [Lit ('']('' @ p @ '')'')] (drop j (render_piece x @ v)) = None"
proof (cases "\<exists>alt q. x = Md alt q")
  case False
  then have "CHR ''('' \<notin> set (render_piece x)"
    using no_paren_piece [OF assms(1)] by blast
  then show ?thesis
    using assms(4,5) by (intro link_none [OF link_start])
next
  case True
  then obtain alt q where x: "x = Md alt q" by blast
  with assms(1,3) have alt: "list_all plain alt" and q: "list_all plain q" "q \<noteq> p"
    by (simp_all add: well_formed_path_def)
  let ?u = "''!['' @ alt"
  define w' where "w' = ''('' @ q @ '')''"
  have r: "render_piece x @ v = ?u @ CHR '']'' # w' @ v"
    by (simp add: x w'_def)
  have nb: "CHR '']'' \<notin> set w'"
    using plain_not [OF q(1), of "CHR '']''"] by (simp add: w'_def)
  have "length (render_piece x) = length ?u + Suc (length w')" by (simp add: x w'_def)
  with assms(5) have "j < length ?u \<or> j = length ?u \<or> (\<exists>i. j = length ?u + Suc i \<and> i < length w')"
    by arith
  then consider "j < length ?u" | "j = length ?u" | i where "j = length ?u + Suc i" "i < length w'"
    by blast
  then show ?thesis
  proof cases
    case 1
    have "CHR ''('' \<notin> set ?u"
      using plain_not [OF alt, of "CHR ''(''"] by simp
    then have "rx_match [Lit ('']('' @ p @ '')'')] (drop j (?u @ CHR '']'' # w' @ v)) = None"
      using 1 by (intro link_none [OF link_start]) simp_all
    then show ?thesis
      unfolding r .
  next
    case 2
    have "drop j (render_piece x @ v) = '']('' @ q @ '')'' @ v"
      unfolding r 2 by (simp add: w'_def)
    with other_link [OF assms(2) q, of v] show ?thesis by simp
  next
    case (3 i)
    have "drop j (render_piece x @ v) = drop i (w' @ v)"
      unfolding r 3(1) by (simp add: drop_append)
    also have "\<dots> = w' ! i # drop (Suc i) w' @ v"
      using 3(2) by (simp add: Cons_nth_drop_Suc)
    finally have d: "drop j (render_piece x @ v) = w' ! i # drop (Suc i) w' @ v" .
    from nb 3(2) have "w' ! i \<noteq> CHR '']''"
      by (metis nth_mem)
    then show ?thesis
      unfolding d by simp
  qed
qed

lemma lazy_block:
  assumes "\<And>j. j < length u \<Longrightarrow> k (drop j (u @ v)) = None"
    and "\<not> list_all dot u \<or> star_lazy dot k v = None"
  shows "star_lazy dot k (u @ v) = None"
proof (cases "list_all dot u")
  case True
  with assms(2) have "star_lazy dot k v = None" by simp
  with star_lazy_skip [of dot u k v, OF True assms(1)] show ?thesis by simp
next
  case False
  then show ?thesis
    using assms(1) by (rule star_lazy_stuck)
qed

lemma lazy_free:
  assumes "well_formed d" "list_all plain p" "line_free p d"
  shows "star_lazy dot (rx_match [Lit ('']('' @ p @ '')'')]) (render d) = None"
  using assms(1,3)
proof (induction d)
  case Nil
  show ?case by simp
next
  case (Cons x d)
  then have wfx: "well_formed_piece x" and wfd: "well_formed d" and nx: "\<not> is_md_to p x"
    and l: "\<not> list_all dot (render_piece x) \<or> line_free p d"
    by simp_all
  have "star_lazy dot (rx_match [Lit ('']('' @ p @ '')'')]) (render_piece x @ render d) = None"
  proof (rule lazy_block)
    fix j
    assume "j < length (render_piece x)"
    with wfx assms(2) nx render_hd [OF wfd]
    show "rx_match [Lit ('']('' @ p @ '')'')] (drop j (render_piece x @ render d)) = None"
      by (rule piece_blocks)
  next
    show "\<not> list_all dot (render_piece x)
        \<or> star_lazy dot (rx_match [Lit ('']('' @ p @ '')'')]) (render d) = None"
    proof (cases "line_free p d")
      case True
      from Cons.IH [OF wfd True] show ?thesis ..
    next
      case False
      with l show ?thesis by simp
    qed
  qed
  then show ?case by (simp del: rx_match.simps)
qed

lemma md_unfold_link:
  "rx_match [Lit ''!['', StarL dot, Lit l] (''!['' @ s)
     = map_option (\<lambda>(x, r). ''!['' # x # r) (star_lazy dot (rx_match [Lit l]) s)"
  by (cases "star_lazy dot (rx_match [Lit l]) s") auto

lemma opens_shape:
  assumes "opens x"
  obtains s where "render_piece x = ''!['' @ s"
  using assms by (cases x) auto

lemma md_miss:
  assumes "well_formed_piece x" "well_formed d" "list_all plain p" "opens x" "\<not> is_md_to p x" "line_free p (x # d)"
  shows "rx_match [Lit ''!['', StarL dot, Lit ('']('' @ p @ '')'')] (render_piece x @ render d) = None"
proof -
  let ?k = "rx_match [Lit ('']('' @ p @ '')'')]"
  from assms(4) obtain s where s: "render_piece x = ''!['' @ s"
    by (rule opens_shape)
  have "star_lazy dot ?k (s @ render d) = None"
  proof (rule lazy_block)
    fix j
    assume "j < length s"
    then have "Suc (Suc j) < length (render_piece x)" by (simp add: s)
    from piece_blocks [OF assms(1,3,5) render_hd [OF assms(2)] this]
    show "?k (drop j (s @ render d)) = None"
      by (simp add: s del: rx_match.simps)
  next
    from assms(6) assms(5) have "\<not> list_all dot (render_piece x) \<or> line_free p d" by simp
    moreover have "list_all dot (render_piece x) = list_all dot s"
      by (simp add: s dot_def is_line_terminator_def)
    ultimately have "\<not> list_all dot s \<or> line_free p d" by simp
    then show "\<not> list_all dot s \<or> star_lazy dot ?k (render d) = None"
    proof
      assume "\<not> list_all dot s"
      then show ?thesis ..
    next
      assume "line_free p d"
      from lazy_free [OF assms(2,3) this] show ?thesis ..
    qed
  qed
  then have "rx_match [Lit ''!['', StarL dot, Lit ('']('' @ p @ '')'')] (''!['' @ (s @ render d)) = None"
    unfolding md_unfold_link by simp
  then show ?thesis
    by (simp only: s append_assoc)
qed

text \<open>Replacing over a piece that holds no match, and at a match.\<close>

lemma replace_skip_piece:
  assumes "rx_first r (s @ v) = None \<or> s = []"
    and "\<And>c t. c \<noteq> a \<Longrightarrow> rx_first r (c # t) = None" "a \<notin> set (tl s)"
  shows "rx_replace r repl bef (s @ v) = s @ rx_replace r repl (bef @ s) v"
proof (rule rx_replace_skip)
  fix j
  assume j: "j < length s"
  show "rx_first r (drop j (s @ v)) = None"
  proof (cases j)
    case 0
    with j assms(1) show ?thesis by auto
  next
    case (Suc i)
    with j have d: "drop j (s @ v) = tl s ! i # drop (Suc j) s @ v"
      by (simp add: Cons_nth_drop_Suc nth_tl)
    from Suc j have "i < length (tl s)" by simp
    with assms(3) have "tl s ! i \<noteq> a"
      by (metis nth_mem)
    then show ?thesis
      unfolding d by (rule assms(2))
  qed
qed

lemma replace_skip_chars:
  assumes "\<And>c t. c \<noteq> a \<Longrightarrow> rx_first r (c # t) = None" "a \<notin> set s"
  shows "rx_replace r repl bef (s @ v) = s @ rx_replace r repl (bef @ s) v"
proof (cases s)
  case Nil
  then show ?thesis by simp
next
  case (Cons c s')
  with assms(2) have "c \<noteq> a" "a \<notin> set (tl s)" by auto
  from assms(1) [OF this(1)] have "rx_first r (s @ v) = None"
    by (simp add: Cons)
  then show ?thesis
    using assms(1) \<open>a \<notin> set (tl s)\<close> by (intro replace_skip_piece) simp_all
qed

lemma replace_hit_piece:
  assumes "rx_first r (m @ v) = Some ps" "concat ps = m" "m \<noteq> []" "CHR ''$'' \<notin> set repl"
  shows "rx_replace r repl bef (m @ v) = repl @ rx_replace r repl (bef @ m) v"
  using rx_replace_hit [OF assms(1-3), of repl bef] substitute_plain [OF assms(4)] by simp

lemma in_set_tl: "a \<in> set (tl xs) \<Longrightarrow> a \<in> set xs"
  by (cases xs) auto

lemma tail_no_bang:
  assumes "well_formed_piece x"
  shows "CHR ''!'' \<notin> set (tl (render_piece x))"
  using assms plain_not [of _ "CHR ''!''"]
  by (cases x) (auto simp: well_formed_path_def dq_def dest: in_set_tl)

lemma not_opens_no_bang:
  assumes "well_formed_piece x" "\<not> opens x"
  shows "CHR ''!'' \<notin> set (render_piece x)"
  using assms plain_not [of _ "CHR ''!''"]
  by (cases x) (auto simp: well_formed_path_def dq_def)

lemma no_lt:
  assumes "well_formed_piece x" "\<And>pre q post. x \<noteq> Html pre q post"
  shows "CHR ''<'' \<notin> set (render_piece x)"
  using assms plain_not [of _ "CHR ''<''"]
  by (cases x) (auto simp: well_formed_path_def)

lemma md_pass:
  assumes "well_formed d" "list_all plain p" "separated p d" "CHR ''$'' \<notin> set repl"
  shows "rx_replace [[Lit ''!['', StarL dot, Lit ('']('' @ p @ '')'')]] repl bef (render d)
     = concat (map (\<lambda>x. if is_md_to p x then repl else render_piece x) d)"
  using assms(1,3)
proof (induction d arbitrary: bef)
  case Nil
  show ?case by simp
next
  case (Cons x d)
  let ?R = "[Lit ''!['', StarL dot, Lit ('']('' @ p @ '')'')]"
  from Cons.prems have wfx: "well_formed_piece x" and wfd: "well_formed d" and sep: "separated p d"
    and here: "\<not> opens x \<or> is_md_to p x \<or> line_free p (x # d)"
    by simp_all
  note IH = Cons.IH [OF wfd sep]
  have bang: "\<And>c t. c \<noteq> CHR ''!'' \<Longrightarrow> rx_first [?R] (c # t) = None"
    by simp
  show ?case
  proof (cases "is_md_to p x")
    case True
    then obtain alt where x: "x = Md alt p" by (cases x) auto
    with wfx have alt: "list_all dot alt" "CHR '']'' \<notin> set alt"
      using plain_not [of alt "CHR '']''"] by simp_all
    let ?ps = "[''!['', alt, '']('' @ p @ '')'']"
    have "rx_match ?R (''!['' @ alt @ '']('' @ p @ '')'' @ render d) = Some ?ps"
      by (rule md_pattern_match [OF alt])
    then have hit: "rx_first [?R] (concat ?ps @ render d) = Some ?ps"
      unfolding first_single by (simp del: rx_match.simps)
    have "rx_replace [?R] repl bef (concat ?ps @ render d)
        = repl @ rx_replace [?R] repl (bef @ concat ?ps) (render d)"
      by (rule replace_hit_piece [OF hit _ _ assms(4)]) simp_all
    moreover have "render (x # d) = concat ?ps @ render d"
      by (simp add: x)
    ultimately show ?thesis
      using True IH by (simp del: rx_match.simps rx_replace.simps)
  next
    case False
    have "rx_first [?R] (render_piece x @ render d) = None \<or> render_piece x = []"
    proof (cases "opens x")
      case True
      with here False have "line_free p (x # d)" by simp
      from md_miss [OF wfx wfd assms(2) True False this] show ?thesis
        unfolding first_single ..
    next
      case no: False
      show ?thesis
      proof (cases "render_piece x")
        case Nil
        then show ?thesis ..
      next
        case (Cons c s)
        with not_opens_no_bang [OF wfx no] have "c \<noteq> CHR ''!''" by auto
        from bang [OF this] show ?thesis
          by (simp add: Cons del: rx_match.simps)
      qed
    qed
    then have "rx_replace [?R] repl bef (render_piece x @ render d)
        = render_piece x @ rx_replace [?R] repl (bef @ render_piece x) (render d)"
      using bang tail_no_bang [OF wfx] by (rule replace_skip_piece)
    then show ?thesis
      using False IH by (simp del: rx_match.simps rx_replace.simps)
  qed
qed

text \<open>The pattern for the inline tag.\<close>

lemma src_positions:
  assumes "dq \<notin> set pre" "dq \<notin> set q" "dq \<notin> set post" "list_all plain p"
    and "prefix (''src='' @ [dq] @ p @ [dq])
      (drop j (pre @ ''src='' @ [dq] @ q @ [dq] @ post) @ CHR ''>'' # b)"
  shows "j = length pre \<and> q = p"
proof -
  define run where "run = pre @ ''src='' @ [dq] @ q @ [dq] @ post"
  define L where "L = ''src='' @ [dq] @ p @ [dq]"
  have nodq: "dq \<notin> set p" and nogt: "CHR ''>'' \<notin> set p"
    using plain_not [OF assms(4)] by simp_all
  from assms(5) obtain y where "L @ y = drop j run @ CHR ''>'' # b"
    unfolding run_def L_def by (auto simp: prefix_def)
  moreover have "CHR ''>'' \<notin> set L"
    using nogt by (simp add: L_def dq_def)
  ultimately have "prefix L (drop j run)"
    by (rule prefix_before)
  then obtain z where z: "drop j run = ''src='' @ dq # p @ dq # z"
    by (auto simp: prefix_def L_def)
  show ?thesis
  proof (cases "j \<le> length pre + 4")
    case True
    define ps where "ps = pre @ ''src=''"
    define a where "a = drop j ps"
    have lps: "length ps = length pre + 4" by (simp add: ps_def)
    have "run = ps @ dq # q @ dq # post" by (simp add: run_def ps_def)
    then have "drop j run = a @ dq # q @ dq # post"
      using True lps by (simp add: a_def)
    with z have e: "a @ dq # (q @ dq # post) = ''src='' @ dq # (p @ dq # z)" by simp
    moreover have "dq \<notin> set a"
      using assms(1) by (auto simp: a_def ps_def dq_def dest: in_set_dropD)
    moreover have "dq \<notin> set ''src=''" by (simp add: dq_def)
    ultimately have a: "a = ''src=''" by (rule split_unique)
    then have "length a = 4" by simp
    with True lps have j: "j = length pre" by (simp add: a_def)
    from e a have "q @ dq # post = p @ dq # z" by simp
    from split_unique [OF this assms(2) nodq] j show ?thesis by simp
  next
    case False
    then have "j = length pre + 5 + (j - (length pre + 5))" by simp
    then obtain i where i: "j = length pre + 5 + i" ..
    define hd5 where "hd5 = pre @ ''src='' @ [dq]"
    have l5: "length hd5 = length pre + 5" by (simp add: hd5_def)
    have "run = hd5 @ (q @ dq # post)" by (simp add: run_def hd5_def)
    then have "drop j run = drop i (q @ dq # post)"
      unfolding i using l5 by (simp del: append_assoc)
    with z have "2 \<le> length (filter (\<lambda>c. c = dq) (drop i (q @ dq # post)))"
      by simp
    also have "\<dots> \<le> length (filter (\<lambda>c. c = dq) (q @ dq # post))"
      by (rule count_drop)
    also have "\<dots> = 1"
      using assms(2,3) by (auto simp: filter_empty_conv)
    finally show ?thesis by simp
  qed
qed

lemma plus_greedy_none:
  assumes "\<And>j. j \<le> length (takeWhile P s) \<Longrightarrow> k (drop j s) = None"
  shows "plus_greedy P k s = None"
proof (cases "plus_greedy P k s")
  case None
  then show ?thesis .
next
  case (Some y)
  obtain x r where y: "y = (x, r)" by (cases y)
  from plus_greedy_Some [OF Some [unfolded y]] obtain rest where
    rest: "s = x @ rest" "k rest = Some r"
    by blast
  from plus_greedy_all [OF Some [unfolded y]] have "list_all P x" by simp
  then have "length x \<le> length (takeWhile P s)"
    unfolding rest(1) by (simp add: takeWhile_append2 list_all_iff)
  from assms [OF this] rest show ?thesis by simp
qed

lemma html_miss:
  assumes "well_formed_piece (Html pre q post)" "list_all plain p" "q \<noteq> p"
    and "\<And>t r. k t = Some r \<Longrightarrow> prefix (''src='' @ [dq] @ p @ [dq]) t"
  shows "plus_greedy (\<lambda>c. c \<noteq> CHR ''>'') k (pre @ ''src='' @ [dq] @ q @ [dq] @ post @ CHR ''>'' # b)
    = None"
proof (rule plus_greedy_none)
  define run where "run = pre @ ''src='' @ [dq] @ q @ [dq] @ post"
  from assms(1) have pl: "list_all plain pre" "list_all plain q" "list_all plain post"
    by (simp_all add: well_formed_path_def)
  have nodq: "dq \<notin> set pre" "dq \<notin> set q" "dq \<notin> set post"
    using pl plain_not [of _ dq] by simp_all
  have s: "pre @ ''src='' @ [dq] @ q @ [dq] @ post @ CHR ''>'' # b = run @ CHR ''>'' # b"
    by (simp add: run_def)
  have "list_all (\<lambda>c. c \<noteq> CHR ''>'') run"
    using pl plain_not [of _ "CHR ''>''"] by (auto simp: run_def list_all_iff dq_def)
  then have tw: "takeWhile (\<lambda>c. c \<noteq> CHR ''>'') (run @ CHR ''>'' # b) = run"
    by (subst takeWhile_append2) (auto simp: list_all_iff)
  fix j
  assume "j \<le> length (takeWhile (\<lambda>c. c \<noteq> CHR ''>'')
    (pre @ ''src='' @ [dq] @ q @ [dq] @ post @ CHR ''>'' # b))"
  then have j: "j \<le> length run"
    unfolding s tw .
  show "k (drop j (pre @ ''src='' @ [dq] @ q @ [dq] @ post @ CHR ''>'' # b)) = None"
  proof (cases "k (drop j (run @ CHR ''>'' # b))")
    case None
    then show ?thesis unfolding s .
  next
    case (Some r)
    from assms(4) [OF this] j
    have "prefix (''src='' @ [dq] @ p @ [dq]) (drop j run @ CHR ''>'' # b)"
      by simp
    from src_positions [OF nodq assms(2) this [unfolded run_def]] assms(3) show ?thesis
      by simp
  qed
qed

lemma html_pass:
  fixes c rem :: "string \<Rightarrow> string"
  assumes "well_formed d" "list_all plain p" "CHR ''$'' \<notin> set repl"
    and K1: "\<And>t r. rx_match as t = Some r \<Longrightarrow> prefix (''src='' @ [dq] @ p @ [dq]) t"
    and K2: "\<And>post b. list_all plain post \<Longrightarrow>
      \<exists>r. rx_match as (''src='' @ [dq] @ p @ [dq] @ post @ CHR ''>'' # b) = Some r
        \<and> concat r = ''src='' @ [dq] @ p @ [dq] @ c post"
    and C: "\<And>post. post @ ''>'' = c post @ rem post"
  shows "rx_replace [Lit ''<img'' # PlusG (\<lambda>c. c \<noteq> CHR ''>'') # as] repl bef (render d)
     = concat (map (\<lambda>x. case x of
          Html pre q post \<Rightarrow> if q = p then repl @ rem post else render_piece x
        | _ \<Rightarrow> render_piece x) d)"
  using assms(1)
proof (induction d arbitrary: bef)
  case Nil
  show ?case by simp
next
  case (Cons x d)
  let ?R = "Lit ''<img'' # PlusG (\<lambda>c. c \<noteq> CHR ''>'') # as"
  let ?L = "''src='' @ [dq] @ p @ [dq]"
  from Cons.prems have wfx: "well_formed_piece x" and wfd: "well_formed d" by simp_all
  note IH = Cons.IH [OF wfd]
  have lt: "\<And>c t. c \<noteq> CHR ''<'' \<Longrightarrow> rx_first [?R] (c # t) = None"
    by simp
  show ?case
  proof (cases "\<exists>pre q post. x = Html pre q post")
    case False
    then have "CHR ''<'' \<notin> set (render_piece x)"
      using no_lt [OF wfx] by blast
    from replace_skip_chars [of "CHR ''<''" "[?R]", OF lt this] False IH show ?thesis
      by (cases x) (simp_all del: rx_match.simps rx_replace.simps)
  next
    case True
    then obtain pre q post where x: "x = Html pre q post" by blast
    with wfx have wfh: "well_formed_piece (Html pre q post)" and pl: "list_all plain pre" "list_all plain q"
      "list_all plain post" "pre \<noteq> []"
      by (simp_all add: well_formed_path_def)
    show ?thesis
    proof (cases "q = p")
      case False
      from html_miss [OF wfh assms(2) False K1]
      have "plus_greedy (\<lambda>c. c \<noteq> CHR ''>'') (rx_match as)
          (pre @ ''src='' @ [dq] @ q @ [dq] @ post @ CHR ''>'' # render d) = None" .
      then have "rx_first [?R] (render_piece x @ render d) = None"
        by (simp add: x)
      moreover have "CHR ''<'' \<notin> set (tl (render_piece x))"
        using pl plain_not [of _ "CHR ''<''"] by (simp add: x dq_def)
      ultimately have "rx_replace [?R] repl bef (render_piece x @ render d)
          = render_piece x @ rx_replace [?R] repl (bef @ render_piece x) (render d)"
        using lt by (intro replace_skip_piece) simp_all
      then show ?thesis
        using False IH by (simp add: x del: rx_match.simps rx_replace.simps render_piece.simps)
    next
      case eq: True
      from K2 [OF pl(3), of "render d"] obtain r where
        here: "rx_match as (?L @ post @ CHR ''>'' # render d) = Some r" and r: "concat r = ?L @ c post"
        by auto
      have shape: "\<exists>x y. t = ''src='' @ [dq] @ x @ [dq] @ y \<and> list_all (\<lambda>c. c \<noteq> dq \<and> c \<noteq> CHR ''>'') x"
        if "rx_match as t = Some r'" for t r'
      proof -
        from K1 [OF that] obtain y where "t = ?L @ y" by (auto simp: prefix_def)
        moreover have "list_all (\<lambda>c. c \<noteq> dq \<and> c \<noteq> CHR ''>'') p"
          using assms(2) by (auto simp: list_all_iff)
        ultimately show ?thesis by auto
      qed
      have wfp: "well_formed_piece (Html pre p post)"
        using wfh eq by simp
      from html_at_html [of pre p post "rx_match as" "render d" r, OF wfp shape] here
      have "plus_greedy (\<lambda>c. c \<noteq> CHR ''>'') (rx_match as)
          (pre @ ''src='' @ [dq] @ p @ [dq] @ post @ CHR ''>'' # render d) = Some (pre, r)"
        by simp
      then have m: "rx_match ?R (''<img'' @ pre @ ''src='' @ [dq] @ p @ [dq] @ post @ CHR ''>'' # render d)
          = Some (''<img'' # pre # r)"
        by simp
      let ?ps = "''<img'' # pre # r"
      have whole: "render (x # d) = concat ?ps @ rem post @ render d"
        using C [of post] by (simp add: x eq r)
      have hit: "rx_first [?R] (concat ?ps @ rem post @ render d) = Some ?ps"
        unfolding first_single whole [symmetric] using m by (simp add: x eq del: rx_match.simps)
      have nolt: "CHR ''<'' \<notin> set (rem post)"
      proof -
        have "set (rem post) \<subseteq> set (post @ ''>'')"
          unfolding C [of post] by simp
        then show ?thesis
          using plain_not [OF pl(3), of "CHR ''<''"] by auto
      qed
      have "rx_replace [?R] repl bef (concat ?ps @ rem post @ render d)
          = repl @ rx_replace [?R] repl (bef @ concat ?ps) (rem post @ render d)"
        by (rule replace_hit_piece [OF hit _ _ assms(3)]) simp_all
      also have "rx_replace [?R] repl (bef @ concat ?ps) (rem post @ render d)
          = rem post @ rx_replace [?R] repl ((bef @ concat ?ps) @ rem post) (render d)"
        by (rule replace_skip_chars [of "CHR ''<''" "[?R]", OF lt nolt])
      finally show ?thesis
        unfolding whole using IH by (simp add: x eq del: rx_match.simps rx_replace.simps)
    qed
  qed
qed

text \<open>The pattern for the wiki embed.\<close>

lemma wiki_pass:
  assumes "well_formed d" "list_all plain p" "CHR ''$'' \<notin> set repl"
  shows "rx_replace [[Lit (''![['' @ p @ '']]'')]] repl bef (render d)
     = concat (map (\<lambda>x. if x = Wiki p then repl else render_piece x) d)"
  using assms(1)
proof (induction d arbitrary: bef)
  case Nil
  show ?case by simp
next
  case (Cons x d)
  let ?W = "''![['' @ p @ '']]''"
  let ?R = "[Lit ?W]"
  from Cons.prems have wfx: "well_formed_piece x" and wfd: "well_formed d" by simp_all
  note IH = Cons.IH [OF wfd]
  have bang: "\<And>c t. c \<noteq> CHR ''!'' \<Longrightarrow> rx_first [?R] (c # t) = None"
    by simp
  show ?case
  proof (cases "x = Wiki p")
    case True
    have hit: "rx_first [?R] (concat [?W] @ render d) = Some [?W]"
      by simp
    have "rx_replace [?R] repl bef (concat [?W] @ render d)
        = repl @ rx_replace [?R] repl (bef @ concat [?W]) (render d)"
      by (rule replace_hit_piece [OF hit _ _ assms(3)]) simp_all
    then show ?thesis
      using True IH by (simp del: rx_match.simps rx_replace.simps)
  next
    case False
    have "\<not> prefix ?W (render_piece x @ render d) \<or> render_piece x = []"
    proof (cases x)
      case (Text t)
      with wfx have "CHR ''!'' \<notin> set t"
        using plain_not [of t "CHR ''!''"] by simp
      then show ?thesis
        by (cases t) (auto simp: Text)
    next
      case (Html pre q post)
      then show ?thesis by simp
    next
      case (Md alt q)
      with wfx have "CHR ''['' \<notin> set alt"
        using plain_not [of alt "CHR ''[''"] by simp
      then show ?thesis
        by (cases alt) (auto simp: Md)
    next
      case (Wiki q)
      with False have ne: "q \<noteq> p" by simp
      from Wiki wfx have nq: "CHR '']'' \<notin> set q"
        using plain_not [of q "CHR '']''"] by (simp add: well_formed_path_def)
      have np: "CHR '']'' \<notin> set p"
        using plain_not [OF assms(2), of "CHR '']''"] by simp
      have "\<not> prefix ?W (render_piece x @ render d)"
      proof
        assume "prefix ?W (render_piece x @ render d)"
        then obtain z where "''![['' @ q @ '']]'' @ render d = ?W @ z"
          by (auto simp: prefix_def Wiki)
        then have "q @ CHR '']'' # (CHR '']'' # render d) = p @ CHR '']'' # (CHR '']'' # z)"
          by simp
        from split_unique [OF this nq np] ne show False by simp
      qed
      then show ?thesis ..
    qed
    then have "rx_first [?R] (render_piece x @ render d) = None \<or> render_piece x = []"
      by simp
    then have "rx_replace [?R] repl bef (render_piece x @ render d)
        = render_piece x @ rx_replace [?R] repl (bef @ render_piece x) (render d)"
      using bang tail_no_bang [OF wfx] by (rule replace_skip_piece)
    then show ?thesis
      using False IH by (simp del: rx_match.simps rx_replace.simps)
  qed
qed

text \<open>The three passes of a rewriter, one after the other.\<close>

lemma render_pieces:
  assumes "\<And>x. x \<in> set d \<Longrightarrow> f x = render_piece (g x)"
  shows "concat (map f d) = render (map g d)"
  using assms by (induction d) simp_all

lemma well_formed_map:
  assumes "well_formed d" "\<And>x. well_formed_piece x \<Longrightarrow> well_formed_piece (g x)"
  shows "well_formed (map g d)"
  using assms by (induction d) simp_all

lemma dollar_free:
  assumes "CHR ''$'' \<notin> set r"
  shows "CHR ''$'' \<notin> set (''![]('' @ r @ '')'')" "CHR ''$'' \<notin> set (''<img src='' @ [dq] @ r @ [dq])"
    "CHR ''$'' \<notin> set (''![['' @ r @ '']]'')"
  using assms by (simp_all add: dq_def)

lemma upload_rewrite:
  assumes "well_formed d" "well_formed_path p" "well_formed_path r" "CHR ''$'' \<notin> set r" "separated p d"
  shows "replaceImageLink (render d) p r = render (map (upload_piece p r) d)"
proof -
  let ?g1 = "\<lambda>x. if is_md_to p x then Md [] r else x"
  let ?g2 = "\<lambda>x. case x of Html pre q post \<Rightarrow> if q = p then Html '' '' r post else x | _ \<Rightarrow> x"
  let ?g3 = "\<lambda>x. if x = Wiki p then Md [] r else x"
  let ?link = "''![]('' @ r @ '')''"
  let ?tag = "''<img src='' @ [dq] @ r @ [dq]"
  let ?L = "''src='' @ [dq] @ p @ [dq]"
  from assms(2) have p: "list_all plain p" by (simp add: well_formed_path_def)
  from assms(3) have r: "list_all plain r" by (simp add: well_formed_path_def)
  note dollar = dollar_free [OF assms(4)]
  have 1: "replace_all [[Lit ''!['', StarL dot, Lit ('']('' @ p @ '')'')]] ?link (render d)
      = render (map ?g1 d)"
    unfolding replace_all_def md_pass [OF assms(1) p assms(5) dollar(1)]
    by (rule render_pieces) simp
  have wf1: "well_formed (map ?g1 d)"
    using assms(1) by (rule well_formed_map) (simp add: assms(3))
  have 2: "replace_all [[Lit ''<img'', PlusG (\<lambda>c. c \<noteq> CHR ''>''), Lit ?L]] ?tag (render (map ?g1 d))
      = render (map ?g2 (map ?g1 d))"
  proof -
    have "rx_replace [Lit ''<img'' # PlusG (\<lambda>c. c \<noteq> CHR ''>'') # [Lit ?L]] ?tag [] (render (map ?g1 d))
      = concat (map (\<lambda>x. case x of
          Html pre q post \<Rightarrow> if q = p then ?tag @ (post @ ''>'') else render_piece x
        | _ \<Rightarrow> render_piece x) (map ?g1 d))"
    proof (rule html_pass [OF wf1 p dollar(2), where c = "\<lambda>post. []" and rem = "\<lambda>post. post @ ''>''"])
      show "\<And>t r'. rx_match [Lit ?L] t = Some r' \<Longrightarrow> prefix ?L t"
        by (simp split: if_splits)
      show "\<And>post b. \<exists>r'. rx_match [Lit ?L] (''src='' @ [dq] @ p @ [dq] @ post @ CHR ''>'' # b) = Some r'
          \<and> concat r' = ''src='' @ [dq] @ p @ [dq] @ []"
        by simp
    qed simp
    also have "\<dots> = render (map ?g2 (map ?g1 d))"
      by (rule render_pieces) (simp split: piece.splits)
    finally show ?thesis
      by (simp only: replace_all_def)
  qed
  have wf2: "well_formed (map ?g2 (map ?g1 d))"
    using wf1 by (rule well_formed_map) (auto split: piece.splits simp: assms(3) plain_def dq_def)
  have 3: "replace_all [[Lit (''![['' @ p @ '']]'')]] ?link (render (map ?g2 (map ?g1 d)))
      = render (map ?g3 (map ?g2 (map ?g1 d)))"
    unfolding replace_all_def wiki_pass [OF wf2 p dollar(1)]
    by (rule render_pieces) simp
  have e: "map ?g3 (map ?g2 (map ?g1 d)) = map (upload_piece p r) d"
  proof -
    have pw: "?g3 (?g2 (?g1 x)) = upload_piece p r x" for x
      by (cases x) auto
    show ?thesis by (simp only: map_map comp_def pw)
  qed
  show ?thesis
    unfolding replaceImageLink_def Let_def 1 2 3 e ..
qed

lemma download_rewrite:
  assumes "well_formed d" "well_formed_path u" "well_formed_path f" "CHR ''$'' \<notin> set f" "separated u d"
  shows "replaceUrlWithRelative (render d) u f = render (map (download_piece u f) d)"
proof -
  let ?g1 = "\<lambda>x. if is_md_to u x then Wiki f else x"
  let ?g2 = "\<lambda>x. case x of Html pre q post \<Rightarrow> if q = u then Wiki f else x | _ \<Rightarrow> x"
  let ?g3 = "\<lambda>x. if x = Wiki u then Wiki f else x"
  let ?embed = "''![['' @ f @ '']]''"
  let ?L = "''src='' @ [dq] @ u @ [dq]"
  let ?as = "[Lit ?L, StarG (\<lambda>c. c \<noteq> CHR ''>''), Lit ''>'']"
  from assms(2) have u: "list_all plain u" by (simp add: well_formed_path_def)
  note dollar = dollar_free [OF assms(4)]
  have 1: "replace_all [[Lit ''!['', StarL dot, Lit ('']('' @ u @ '')'')]] ?embed (render d)
      = render (map ?g1 d)"
    unfolding replace_all_def md_pass [OF assms(1) u assms(5) dollar(3)]
    by (rule render_pieces) simp
  have wf1: "well_formed (map ?g1 d)"
    using assms(1) by (rule well_formed_map) (simp add: assms(3))
  have 2: "replace_all [Lit ''<img'' # PlusG (\<lambda>c. c \<noteq> CHR ''>'') # ?as] ?embed (render (map ?g1 d))
      = render (map ?g2 (map ?g1 d))"
  proof -
    have "rx_replace [Lit ''<img'' # PlusG (\<lambda>c. c \<noteq> CHR ''>'') # ?as] ?embed [] (render (map ?g1 d))
      = concat (map (\<lambda>x. case x of
          Html pre q post \<Rightarrow> if q = u then ?embed @ [] else render_piece x
        | _ \<Rightarrow> render_piece x) (map ?g1 d))"
    proof (rule html_pass [OF wf1 u dollar(3), where c = "\<lambda>post. post @ ''>''" and rem = "\<lambda>post. []"])
      show "\<And>t r'. rx_match ?as t = Some r' \<Longrightarrow> prefix ?L t"
        by (simp split: if_splits)
      show "\<exists>r'. rx_match ?as (''src='' @ [dq] @ u @ [dq] @ post @ CHR ''>'' # b) = Some r'
          \<and> concat r' = ''src='' @ [dq] @ u @ [dq] @ post @ ''>''"
        if "list_all plain post" for post b
      proof -
        have "star_greedy (\<lambda>c. c \<noteq> CHR ''>'') (rx_match [Lit ''>'']) (CHR ''>'' # b) = Some ([], [''>''])"
          by simp
        moreover have "list_all (\<lambda>c. c \<noteq> CHR ''>'') post"
          using that by (auto simp: list_all_iff)
        ultimately have "star_greedy (\<lambda>c. c \<noteq> CHR ''>'') (rx_match [Lit ''>'']) (post @ CHR ''>'' # b)
            = Some (post @ [], [''>''])"
          by (intro star_greedy_prepend)
        then have "rx_match ?as (?L @ post @ CHR ''>'' # b) = Some [?L, post, ''>'']"
          by simp
        then show ?thesis by simp
      qed
    qed simp
    also have "\<dots> = render (map ?g2 (map ?g1 d))"
      by (rule render_pieces) (simp split: piece.splits)
    finally show ?thesis
      by (simp only: replace_all_def)
  qed
  have wf2: "well_formed (map ?g2 (map ?g1 d))"
    using wf1 by (rule well_formed_map) (auto split: piece.splits simp: assms(3))
  have 3: "replace_all [[Lit (''![['' @ u @ '']]'')]] ?embed (render (map ?g2 (map ?g1 d)))
      = render (map ?g3 (map ?g2 (map ?g1 d)))"
    unfolding replace_all_def wiki_pass [OF wf2 u dollar(3)]
    by (rule render_pieces) simp
  have e: "map ?g3 (map ?g2 (map ?g1 d)) = map (download_piece u f) d"
  proof -
    have pw: "?g3 (?g2 (?g1 x)) = download_piece u f x" for x
      by (cases x) auto
    show ?thesis by (simp only: map_map comp_def pw)
  qed
  show ?thesis
    unfolding replaceUrlWithRelative_def Let_def 1 2 3 e ..
qed

text \<open>After the rewrite no markdown reference to the path is left.\<close>

lemma free_of:
  assumes "\<And>x. x \<in> set d \<Longrightarrow> \<not> is_md_to p x"
  shows "line_free p d \<and> separated p d"
  using assms by (induction d) auto

lemma upload_piece_facts:
  assumes "r \<noteq> p"
  shows "\<not> is_md_to p (upload_piece p r x)" "upload_piece p r (upload_piece p r x) = upload_piece p r x"
  using assms by (cases x; simp)+

lemma download_piece_facts:
  assumes "f \<noteq> u"
  shows "\<not> is_md_to u (download_piece u f x)"
    "download_piece u f (download_piece u f x) = download_piece u f x"
  using assms by (cases x; simp)+

lemma upload_piece_wf:
  assumes "well_formed_path r" "well_formed_piece x"
  shows "well_formed_piece (upload_piece p r x)"
  using assms by (cases x) (simp_all add: plain_def dq_def)

lemma download_piece_wf:
  assumes "well_formed_path f" "well_formed_piece x"
  shows "well_formed_piece (download_piece u f x)"
  using assms by (cases x) simp_all

text \<open>
  C5, as stated, fails for the inline tag: \<^verbatim>\<open>replaceImageLink\<close> keeps it a tag,
  \<^verbatim>\<open><img src="r"\<close> with the new address, and does not write the link \<^verbatim>\<open>![](r)\<close>.
\<close>

theorem C5_inline_tag_counterexample:
  "well_formed [Html '' alt=1 '' ''p.png'' []]
   \<and> render [Html '' alt=1 '' ''p.png'' []] = ''<img alt=1 src='' @ [dq] @ ''p.png'' @ [dq] @ ''>''
   \<and> replaceImageLink (''<img alt=1 src='' @ [dq] @ ''p.png'' @ [dq] @ ''>'') ''p.png'' ''http://h/u.png''
     = ''<img src='' @ [dq] @ ''http://h/u.png'' @ [dq] @ ''>''
   \<and> replaceImageLink (''<img alt=1 src='' @ [dq] @ ''p.png'' @ [dq] @ ''>'') ''p.png'' ''http://h/u.png''
     \<noteq> ''![](http://h/u.png)''"
  by code_simp

text \<open>
  C5, amended. Take a well-formed note in which every markdown reference to \<open>p\<close> is separated
  as above, and a well-formed replacement \<open>r\<close> other than \<open>p\<close> and without a dollar sign.
  \<^verbatim>\<open>replaceImageLink\<close> replaces every reference to \<open>p\<close>: the markdown form and the wiki
  form by \<^verbatim>\<open>![](r)\<close>, the inline tag by \<^verbatim>\<open><img src="r"\<close> and the rest of the tag; it leaves
  every other piece as it is. \<^verbatim>\<open>replaceUrlWithRelative\<close> replaces every reference to \<open>p\<close>, in
  all three forms, by \<^verbatim>\<open>![[r]]\<close>, and leaves every other piece as it is. A second application
  of either with the same arguments gives the same text as the first.
\<close>

theorem C5_rewrite:
  assumes "well_formed d" "well_formed_path p" "well_formed_path r" "CHR ''$'' \<notin> set r" "r \<noteq> p" "separated p d"
  shows "replaceImageLink (render d) p r = render (map (upload_piece p r) d)
    \<and> replaceImageLink (replaceImageLink (render d) p r) p r = replaceImageLink (render d) p r
    \<and> replaceUrlWithRelative (render d) p r = render (map (download_piece p r) d)
    \<and> replaceUrlWithRelative (replaceUrlWithRelative (render d) p r) p r
      = replaceUrlWithRelative (render d) p r"
proof -
  let ?up = "map (upload_piece p r) d" and ?down = "map (download_piece p r) d"
  have u1: "replaceImageLink (render d) p r = render ?up"
    using assms(1-4,6) by (rule upload_rewrite)
  have d1: "replaceUrlWithRelative (render d) p r = render ?down"
    using assms(1-4,6) by (rule download_rewrite)
  have "well_formed ?up"
    using assms(1) by (rule well_formed_map) (rule upload_piece_wf [OF assms(3)])
  moreover have "separated p ?up"
    using free_of [of ?up p] upload_piece_facts(1) [OF assms(5)] by auto
  ultimately have "replaceImageLink (render ?up) p r = render (map (upload_piece p r) ?up)"
    using assms(2-4) by (intro upload_rewrite)
  also have "map (upload_piece p r) ?up = ?up"
    by (simp add: upload_piece_facts(2) [OF assms(5)])
  finally have u2: "replaceImageLink (render ?up) p r = render ?up" .
  have "well_formed ?down"
    using assms(1) by (rule well_formed_map) (rule download_piece_wf [OF assms(3)])
  moreover have "separated p ?down"
    using free_of [of ?down p] download_piece_facts(1) [OF assms(5)] by auto
  ultimately have "replaceUrlWithRelative (render ?down) p r = render (map (download_piece p r) ?down)"
    using assms(2-4) by (intro download_rewrite)
  also have "map (download_piece p r) ?down = ?down"
    by (simp add: download_piece_facts(2) [OF assms(5)])
  finally have d2: "replaceUrlWithRelative (render ?down) p r = render ?down" .
  show ?thesis
    unfolding u1 d1 u2 d2 by simp
qed

text \<open>
  Two instances: the upload rewrite of a note with two markdown references to the path on one
  line, an inline tag and a wiki embed; the download rewrite of a note with the three forms.
\<close>

theorem C5_witness:
  "well_formed two_on_a_line \<and> well_formed_path ''p.png'' \<and> well_formed_path ''http://h/u.png''
   \<and> CHR ''$'' \<notin> set ''http://h/u.png'' \<and> ''http://h/u.png'' \<noteq> ''p.png''
   \<and> separated ''p.png'' two_on_a_line
   \<and> render two_on_a_line
     = ''see ![a](p.png) and ![b](p.png) then ![c](q.png)'' @ [CHR 0x0A] @ ''![[q.png]]'' @ [CHR 0x0A]
       @ ''<img alt=1 src='' @ [dq] @ ''p.png'' @ [dq] @ '' />![[p.png]]''
   \<and> replaceImageLink (render two_on_a_line) ''p.png'' ''http://h/u.png''
     = ''see ![](http://h/u.png) and ![](http://h/u.png) then ![c](q.png)'' @ [CHR 0x0A]
       @ ''![[q.png]]'' @ [CHR 0x0A]
       @ ''<img src='' @ [dq] @ ''http://h/u.png'' @ [dq] @ '' />![](http://h/u.png)''
   \<and> replaceImageLink (replaceImageLink (render two_on_a_line) ''p.png'' ''http://h/u.png'')
       ''p.png'' ''http://h/u.png''
     = replaceImageLink (render two_on_a_line) ''p.png'' ''http://h/u.png''
   \<and> well_formed remote_line \<and> well_formed_path ''https://h/x.png'' \<and> well_formed_path ''x.png''
   \<and> CHR ''$'' \<notin> set ''x.png'' \<and> ''x.png'' \<noteq> ''https://h/x.png''
   \<and> separated ''https://h/x.png'' remote_line
   \<and> render remote_line
     = ''see ![a](https://h/x.png) and ![[https://h/x.png]]'' @ [CHR 0x0A]
       @ ''<img alt=1 src='' @ [dq] @ ''https://h/x.png'' @ [dq] @ '' />![c](https://h/z.png)''
   \<and> replaceUrlWithRelative (render remote_line) ''https://h/x.png'' ''x.png''
     = ''see ![[x.png]] and ![[x.png]]'' @ [CHR 0x0A] @ ''![[x.png]]![c](https://h/z.png)''
   \<and> replaceUrlWithRelative
       (replaceUrlWithRelative (render remote_line) ''https://h/x.png'' ''x.png'')
       ''https://h/x.png'' ''x.png''
     = replaceUrlWithRelative (render remote_line) ''https://h/x.png'' ''x.png''"
proof -
  have a: "well_formed two_on_a_line" "well_formed_path ''p.png''" "well_formed_path ''http://h/u.png''"
    "CHR ''$'' \<notin> set ''http://h/u.png''" "''http://h/u.png'' \<noteq> ''p.png''"
    "separated ''p.png'' two_on_a_line"
    by code_simp+
  have b: "well_formed remote_line" "well_formed_path ''https://h/x.png''" "well_formed_path ''x.png''"
    "CHR ''$'' \<notin> set ''x.png''" "''x.png'' \<noteq> ''https://h/x.png''"
    "separated ''https://h/x.png'' remote_line"
    by code_simp+
  have ra: "render two_on_a_line
     = ''see ![a](p.png) and ![b](p.png) then ![c](q.png)'' @ [CHR 0x0A] @ ''![[q.png]]'' @ [CHR 0x0A]
       @ ''<img alt=1 src='' @ [dq] @ ''p.png'' @ [dq] @ '' />![[p.png]]''"
    by code_simp
  have rb: "render remote_line
     = ''see ![a](https://h/x.png) and ![[https://h/x.png]]'' @ [CHR 0x0A]
       @ ''<img alt=1 src='' @ [dq] @ ''https://h/x.png'' @ [dq] @ '' />![c](https://h/z.png)''"
    by code_simp
  have ua: "render (map (upload_piece ''p.png'' ''http://h/u.png'') two_on_a_line)
     = ''see ![](http://h/u.png) and ![](http://h/u.png) then ![c](q.png)'' @ [CHR 0x0A]
       @ ''![[q.png]]'' @ [CHR 0x0A]
       @ ''<img src='' @ [dq] @ ''http://h/u.png'' @ [dq] @ '' />![](http://h/u.png)''"
    by code_simp
  have db: "render (map (download_piece ''https://h/x.png'' ''x.png'') remote_line)
     = ''see ![[x.png]] and ![[x.png]]'' @ [CHR 0x0A] @ ''![[x.png]]![c](https://h/z.png)''"
    by code_simp
  note A = C5_rewrite [OF a]
  note B = C5_rewrite [OF b]
  from A have A1: "replaceImageLink (render two_on_a_line) ''p.png'' ''http://h/u.png''
      = render (map (upload_piece ''p.png'' ''http://h/u.png'') two_on_a_line)"
    and A2: "replaceImageLink (replaceImageLink (render two_on_a_line) ''p.png'' ''http://h/u.png'')
       ''p.png'' ''http://h/u.png''
     = replaceImageLink (render two_on_a_line) ''p.png'' ''http://h/u.png''"
    by blast+
  from B have B1: "replaceUrlWithRelative (render remote_line) ''https://h/x.png'' ''x.png''
      = render (map (download_piece ''https://h/x.png'' ''x.png'') remote_line)"
    and B2: "replaceUrlWithRelative
       (replaceUrlWithRelative (render remote_line) ''https://h/x.png'' ''x.png'')
       ''https://h/x.png'' ''x.png''
     = replaceUrlWithRelative (render remote_line) ''https://h/x.png'' ''x.png''"
    by blast+
  from a b ra rb A1 [unfolded ua] A2 B1 [unfolded db] B2 show ?thesis
    by blast
qed

end
